theory Spec2Isabelle
  imports Main "HOL-Library.AList" "HOL-Library.Multiset"
begin

section \<open>Data model\<close>

text \<open>
  Package names and version ranges are strings. A directory is an absolute, normalised
  path, kept as the list of its components below the file-system root (the root itself
  is the empty list), so that \<open>path.dirname\<close> drops the last component and
  \<open>path.basename\<close> reads it.

  A JavaScript object used as a dictionary is an association list of its own properties
  in the order in which \<open>Object.keys\<close> lists them: array-index keys first, in ascending
  numeric order, then the other keys in the order of their creation. Assigning to a key
  that is present keeps its position, \<open>delete\<close> removes the key. Reading a property by
  name and the \<open>in\<close> operator also see what the object inherits from
  \<open>Object.prototype\<close>.
\<close>

type_synonym pkgname = string
type_synonym dir = "string list"
type_synonym addr = nat
type_synonym ranges = "(pkgname \<times> string) list"
type_synonym EntryDeps = "(pkgname \<times> addr) list"

text \<open>
  What a read by name from a dependencies object can yield: an entry, or the member of
  \<open>Object.prototype\<close> that the name inherits (a function, or the prototype itself for
  \<open>__proto__\<close>). The inherited members are different objects for different names, and
  none of them has a \<open>requires\<close>, \<open>dependencies\<close> or \<open>owner\<close> property.
\<close>

datatype ref = EntryRef addr | Inherited pkgname

datatype error =
    ModuleNotFound
  | LocatorFailure
  | ManifestFailure
  | InternalError
  | TypeError

text \<open>The fields of a manifest that the builder reads; an absent field is \<open>None\<close>.\<close>

record manifest =
  m_name :: string
  m_version :: string
  m_integrity :: "string option"
  m_resolved :: "string option"
  m_dependencies :: "ranges option"
  m_optionalDependencies :: "ranges option"
  m_devDependencies :: "ranges option"
  m_peerDependencies :: "ranges option"

text \<open>
  The installed tree on disk, as the builder sees it through its collaborators:
  \<open>manifestReader.read\<close>, \<open>manifestReader.readIfExists\<close> and the body of
  \<open>resolvePackageLocation\<close> (Node's \<open>require.resolve\<close> followed by \<open>path.dirname\<close>).
  Each of them either returns or throws; \<open>ModuleNotFound\<close> is the error whose code is
  \<open>MODULE_NOT_FOUND\<close>.
\<close>

record world =
  read :: "dir \<Rightarrow> error + manifest"
  readIfExists :: "dir \<Rightarrow> error + manifest option"
  resolvePackageLocation :: "dir \<Rightarrow> pkgname \<Rightarrow> error + dir"

text \<open>
  An \<open>Entry\<close> object. Entries are compared by identity and mutated in place, so they
  live in a heap and are referred to by address. The field \<open>owner\<close> is the one that
  \<open>resolveDependencyEntry\<close> reads.
\<close>

record Entry =
  version :: string
  integrity :: "string option"
  resolved :: "string option"
  requires :: "ranges option"
  dependencies :: "EntryDeps option"
  dev :: "bool option"
  optional :: "bool option"
  owner :: "addr option"

type_synonym heap = "Entry list"

text \<open>The value read through a reference that no allocation produced: an object with no field set.\<close>

definition noEntry :: Entry where
  "noEntry = \<lparr>version = [], integrity = None, resolved = None, requires = None,
     dependencies = None, dev = None, optional = None, owner = None\<rparr>"

definition deref :: "heap \<Rightarrow> addr \<Rightarrow> Entry" where
  "deref h a = (if a < length h then h ! a else noEntry)"

section \<open>Object helpers\<close>

text \<open>
  An array index is the canonical decimal numeral of a number up to \<open>2^32 - 2\<close>: digits
  only, no leading zero unless the string is \<open>0\<close>.
\<close>

definition isDigit :: "char \<Rightarrow> bool" where
  "isDigit c \<longleftrightarrow> c \<in> set ''0123456789''"

definition decimal :: "string \<Rightarrow> int" where
  "decimal s = foldl (\<lambda>n c. 10 * n + (of_char c - 48)) 0 s"

definition arrayIndex :: "string \<Rightarrow> int option" where
  "arrayIndex s =
     (if s \<noteq> [] \<and> list_all isDigit s \<and> (s = ''0'' \<or> hd s \<noteq> CHR ''0'')
         \<and> decimal s \<le> 4294967294
      then Some (decimal s) else None)"

text \<open>
  \<open>obj[k] = v\<close> on an own-property list. A present key is overwritten in place. A new
  array-index key goes among the array-index keys, before the first key that is not a
  smaller array index; any other new key goes to the end (\<open>AList.update\<close> overwrites a
  present key in place and appends a new one).
\<close>

fun insertIndexed :: "int \<Rightarrow> string \<Rightarrow> 'v \<Rightarrow> (string \<times> 'v) list \<Rightarrow> (string \<times> 'v) list" where
  "insertIndexed i k v [] = [(k, v)]"
| "insertIndexed i k v (p # ps) =
     (case arrayIndex (fst p) of
        Some j \<Rightarrow> if j < i then p # insertIndexed i k v ps else (k, v) # p # ps
      | None \<Rightarrow> (k, v) # p # ps)"

definition objSet :: "string \<Rightarrow> 'v \<Rightarrow> (string \<times> 'v) list \<Rightarrow> (string \<times> 'v) list" where
  "objSet k v obj =
     (case arrayIndex k of
        None \<Rightarrow> AList.update k v obj
      | Some i \<Rightarrow>
          if k \<in> fst ` set obj then AList.update k v obj else insertIndexed i k v obj)"

text \<open>\<open>{...acc, ...src}\<close>: the own properties of \<open>src\<close> are assigned in order; spreading
  \<open>undefined\<close> or \<open>null\<close> adds nothing.\<close>

definition objSpread :: "(string \<times> 'v) list \<Rightarrow> (string \<times> 'v) list option \<Rightarrow> (string \<times> 'v) list" where
  "objSpread acc src =
     (case src of None \<Rightarrow> acc | Some kvs \<Rightarrow> fold (\<lambda>(k, v). objSet k v) kvs acc)"

text \<open>
  The names of the members of \<open>Object.prototype\<close>, which every object written as a
  literal inherits. \<open>obj[name]\<close> yields the own property when there is one, the
  inherited member for these names, and \<open>undefined\<close> otherwise; \<open>name in obj\<close> holds in
  the first two cases.
\<close>

definition objectPrototypeNames :: "pkgname list" where
  "objectPrototypeNames =
     [''constructor'', ''__defineGetter__'', ''__defineSetter__'', ''hasOwnProperty'',
      ''__lookupGetter__'', ''__lookupSetter__'', ''isPrototypeOf'', ''propertyIsEnumerable'',
      ''toString'', ''valueOf'', ''__proto__'', ''toLocaleString'']"

definition getProp :: "EntryDeps \<Rightarrow> pkgname \<Rightarrow> ref option" where
  "getProp obj name =
     (case map_of obj name of
        Some a \<Rightarrow> Some (EntryRef a)
      | None \<Rightarrow> if name \<in> set objectPrototypeNames then Some (Inherited name) else None)"

definition objKeys :: "('k \<times> 'v) list \<Rightarrow> 'k list" where
  "objKeys obj = map fst obj"

definition objValues :: "('k \<times> 'v) list \<Rightarrow> 'v list" where
  "objValues obj = map snd obj"

section \<open>Builder: \<open>isInstalled\<close> and \<open>getRequires\<close>\<close>

definition isInstalled :: "world \<Rightarrow> dir \<Rightarrow> pkgname \<Rightarrow> error + bool" where
  "isInstalled w d packageName =
     (case resolvePackageLocation w d packageName of
        Inr _ \<Rightarrow> Inr True
      | Inl e \<Rightarrow> if e = ModuleNotFound then Inr False else Inl e)"

text \<open>The loop of \<open>getRequires\<close> over a snapshot of the keys.\<close>

fun getRequires_loop :: "world \<Rightarrow> dir \<Rightarrow> pkgname list \<Rightarrow> ranges \<Rightarrow> error + ranges" where
  "getRequires_loop w d [] req = Inr req"
| "getRequires_loop w d (packageName # rest) req =
     (case isInstalled w d packageName of
        Inl e \<Rightarrow> Inl e
      | Inr installed \<Rightarrow>
          getRequires_loop w d rest (if \<not> installed then AList.delete packageName req else req))"

definition getRequires :: "world \<Rightarrow> dir \<Rightarrow> bool \<Rightarrow> error + ranges" where
  "getRequires w d includeDev =
     (case read w d of
        Inl e \<Rightarrow> Inl e
      | Inr man \<Rightarrow>
          (let req = objSpread (objSpread (objSpread [] (m_dependencies man))
                        (m_optionalDependencies man))
                        (if includeDev then m_devDependencies man else None)
           in getRequires_loop w d (objKeys req) req))"

text \<open>
  The requires map in the words of the specification: the declared dependencies, overridden
  by the optional ones, overridden by the development ones when they are included,
  restricted to the names that are installed.
\<close>

definition objMap :: "('k \<times> 'v) list option \<Rightarrow> 'k \<rightharpoonup> 'v" where
  "objMap obj = (case obj of None \<Rightarrow> Map.empty | Some kvs \<Rightarrow> map_of kvs)"

definition wfObj :: "('k \<times> 'v) list option \<Rightarrow> bool" where
  "wfObj obj = (case obj of None \<Rightarrow> True | Some kvs \<Rightarrow> distinct (map fst kvs))"

definition requires_spec :: "manifest \<Rightarrow> bool \<Rightarrow> (pkgname \<Rightarrow> bool) \<Rightarrow> pkgname \<rightharpoonup> string" where
  "requires_spec man includeDev installed =
     (\<lambda>n. if installed n
          then (objMap (m_dependencies man) ++ objMap (m_optionalDependencies man)
                  ++ (if includeDev then objMap (m_devDependencies man) else Map.empty)) n
          else None)"

section \<open>Builder: hoist targets\<close>

text \<open>
  \<open>getModulesDir\<close>: the closest ancestor (the location itself included) whose last
  component is \<open>node_modules\<close>. The base name of the root is the empty string.
\<close>

function getModulesDir :: "dir \<Rightarrow> dir option" where
  "getModulesDir location =
     (if location \<noteq> [] \<and> last location = ''node_modules'' then Some location
      else if location = [] then None
      else getModulesDir (butlast location))"
  by pat_completeness auto
termination
  by (relation "measure length") auto

text \<open>
  The context of one generation run. \<open>rootDeps\<close> is the top-level dependencies object;
  \<open>root\<close> is the field that \<open>walkNonSubsetDeps\<close> reads. The field \<open>isYarn\<close> of the
  interface is read nowhere and is left out.
\<close>

record BuildContext =
  packagesDir :: dir
  startDir :: dir
  rootDeps :: EntryDeps
  visited :: "dir set"
  moduleDirs :: "dir \<rightharpoonup> addr"
  resolves :: "addr \<rightharpoonup> (pkgname \<times> ref) list"
  root :: "addr option"

text \<open>
  A dependencies object that the builder writes to is either \<open>ctx.rootDeps\<close> or the
  \<open>dependencies\<close> object of one entry. During a build neither field is ever assigned a
  second object, so the object is named by where it hangs.
\<close>

datatype target = RootDeps | EntryDepsOf addr

definition setDependencies :: "heap \<Rightarrow> addr \<Rightarrow> EntryDeps option \<Rightarrow> heap" where
  "setDependencies h a ds = h[a := (deref h a)\<lparr>dependencies := ds\<rparr>]"

definition getDependencyTarget :: "BuildContext \<Rightarrow> heap \<Rightarrow> dir \<Rightarrow> target \<times> heap" where
  "getDependencyTarget ctx h modulesDir =
     (case moduleDirs ctx (butlast modulesDir) of
        None \<Rightarrow> (RootDeps, h)
      | Some tgt \<Rightarrow>
          (EntryDepsOf tgt,
           if dependencies (deref h tgt) = None then setDependencies h tgt (Some []) else h))"

text \<open>Reading the object behind a target, and the assignment \<open>depsObject[depName] = depEntry\<close>.\<close>

definition targetDeps :: "BuildContext \<Rightarrow> heap \<Rightarrow> target \<Rightarrow> EntryDeps" where
  "targetDeps ctx h t =
     (case t of RootDeps \<Rightarrow> rootDeps ctx
      | EntryDepsOf a \<Rightarrow> (case dependencies (deref h a) of None \<Rightarrow> [] | Some ds \<Rightarrow> ds))"

definition targetAssign ::
  "BuildContext \<Rightarrow> heap \<Rightarrow> target \<Rightarrow> pkgname \<Rightarrow> addr \<Rightarrow> BuildContext \<times> heap" where
  "targetAssign ctx h t depName depEntry =
     (case t of
        RootDeps \<Rightarrow> (ctx\<lparr>rootDeps := objSet depName depEntry (rootDeps ctx)\<rparr>, h)
      | EntryDepsOf a \<Rightarrow>
          (ctx, setDependencies h a (Some (objSet depName depEntry (targetDeps ctx h t)))))"

text \<open>\<open>entryResolves.set(depName, depEntry)\<close>, on the \<open>Map\<close> registered for \<open>entry\<close>; a
  \<open>Map\<close> keeps its keys in insertion order.\<close>

definition entryResolvesSet :: "BuildContext \<Rightarrow> addr \<Rightarrow> pkgname \<Rightarrow> ref \<Rightarrow> BuildContext" where
  "entryResolvesSet ctx entry depName depEntry =
     ctx\<lparr>resolves := (resolves ctx)(entry \<mapsto>
        AList.update depName depEntry (case resolves ctx entry of None \<Rightarrow> [] | Some m \<Rightarrow> m))\<rparr>"

section \<open>Builder: \<open>buildLockfileEntry\<close>\<close>

text \<open>
  The recursion is bounded by fuel: \<open>None\<close> is a run that needs a deeper recursion than
  the fuel allows. An exception is \<open>Some (Inl e)\<close> and ends the run.

  The loop over \<open>Object.keys(requires)\<close> takes the recursive call as its first argument.
  The test \<open>depName in depsObject\<close> and the read \<open>depsObject[depName]\<close> are \<open>getProp\<close>.
\<close>

type_synonym 'a outcome = "(error + 'a) option"

fun buildLockfileEntry_loop ::
  "(BuildContext \<Rightarrow> heap \<Rightarrow> dir \<Rightarrow> bool \<Rightarrow> (addr \<times> BuildContext \<times> heap) outcome) \<Rightarrow>
   world \<Rightarrow> BuildContext \<Rightarrow> heap \<Rightarrow> dir \<Rightarrow> addr \<Rightarrow> pkgname list \<Rightarrow>
   (BuildContext \<times> heap) outcome" where
  "buildLockfileEntry_loop rec w ctx h d entry [] = Some (Inr (ctx, h))"
| "buildLockfileEntry_loop rec w ctx h d entry (depName # rest) =
     (case resolvePackageLocation w d depName of
        Inl e \<Rightarrow> Some (Inl e)
      | Inr resolvedDir \<Rightarrow>
          if resolvedDir \<in> visited ctx then buildLockfileEntry_loop rec w ctx h d entry rest
          else
            (case (case getModulesDir resolvedDir of
                     None \<Rightarrow> (RootDeps, h)
                   | Some modulesDir \<Rightarrow> getDependencyTarget ctx h modulesDir) of
               (depsObject, h1) \<Rightarrow>
                 (case getProp (targetDeps ctx h1 depsObject) depName of
                    None \<Rightarrow>
                      (case rec ctx h1 resolvedDir False of
                         None \<Rightarrow> None
                       | Some (Inl e) \<Rightarrow> Some (Inl e)
                       | Some (Inr (depEntry, ctx2, h2)) \<Rightarrow>
                           (case targetAssign ctx2 h2 depsObject depName depEntry of
                              (ctx3, h3) \<Rightarrow>
                                buildLockfileEntry_loop rec w
                                  (entryResolvesSet ctx3 entry depName (EntryRef depEntry)) h3
                                  d entry rest))
                  | Some depEntry \<Rightarrow>
                      buildLockfileEntry_loop rec w
                        (entryResolvesSet ctx entry depName depEntry) h1 d entry rest)))"

definition newEntry :: "manifest \<Rightarrow> ranges \<Rightarrow> Entry" where
  "newEntry man req =
     \<lparr>version = m_version man, integrity = m_integrity man, resolved = m_resolved man,
      requires = Some req, dependencies = Some [], dev = None, optional = None, owner = None\<rparr>"

fun buildLockfileEntry ::
  "nat \<Rightarrow> world \<Rightarrow> BuildContext \<Rightarrow> heap \<Rightarrow> dir \<Rightarrow> bool \<Rightarrow> (addr \<times> BuildContext \<times> heap) outcome" where
  "buildLockfileEntry 0 w ctx h d includeDev = None"
| "buildLockfileEntry (Suc fuel) w ctx h d includeDev =
     (case read w d of
        Inl e \<Rightarrow> Some (Inl e)
      | Inr man \<Rightarrow>
          (case getRequires w d includeDev of
             Inl e \<Rightarrow> Some (Inl e)
           | Inr req \<Rightarrow>
               (let entry = length h;
                    h1 = h @ [newEntry man req];
                    ctx1 = ctx\<lparr>visited := insert d (visited ctx),
                               moduleDirs := (moduleDirs ctx)(d \<mapsto> entry),
                               resolves := (resolves ctx)(entry \<mapsto> [])\<rparr>
                in case buildLockfileEntry_loop (buildLockfileEntry fuel w) w ctx1 h1 d entry
                          (objKeys req) of
                     None \<Rightarrow> None
                   | Some (Inl e) \<Rightarrow> Some (Inl e)
                   | Some (Inr (ctx2, h2)) \<Rightarrow> Some (Inr (entry, ctx2, h2)))))"

subsection \<open>Invariants of a build\<close>

text \<open>
  Entries are created by \<open>buildLockfileEntry\<close> only, one heap cell each. The directories
  turned into an entry and the entries correspond one to one when \<open>moduleDirs\<close> is
  defined exactly on \<open>visited\<close>, sends no two directories to the same entry, and reaches
  every heap cell.
\<close>

definition oneEntryPerDir :: "BuildContext \<Rightarrow> heap \<Rightarrow> bool" where
  "oneEntryPerDir ctx h \<longleftrightarrow>
     dom (moduleDirs ctx) = visited ctx
     \<and> inj_on (moduleDirs ctx) (visited ctx)
     \<and> ran (moduleDirs ctx) = {a. a < length h}"

text \<open>Every binding of a dependencies map refers to one of these entries. A recorded
  logical edge refers to one of these entries, or else it is the member of
  \<open>Object.prototype\<close> that its name inherits.\<close>

definition inHeap :: "heap \<Rightarrow> EntryDeps \<Rightarrow> bool" where
  "inHeap h ds \<longleftrightarrow> (\<forall>(n, a) \<in> set ds. a < length h)"

definition edgeOk :: "heap \<Rightarrow> pkgname \<Rightarrow> ref \<Rightarrow> bool" where
  "edgeOk h n r \<longleftrightarrow>
     (case r of
        EntryRef a \<Rightarrow> a < length h
      | Inherited k \<Rightarrow> k = n \<and> n \<in> set objectPrototypeNames)"

definition edgesInHeap :: "heap \<Rightarrow> (pkgname \<times> ref) list \<Rightarrow> bool" where
  "edgesInHeap h m \<longleftrightarrow> (\<forall>(n, r) \<in> set m. edgeOk h n r)"

definition linksInHeap :: "BuildContext \<Rightarrow> heap \<Rightarrow> bool" where
  "linksInHeap ctx h \<longleftrightarrow>
     inHeap h (rootDeps ctx)
     \<and> (\<forall>e ds. dependencies (deref h e) = Some ds \<longrightarrow> inHeap h ds)
     \<and> (\<forall>e m. resolves ctx e = Some m \<longrightarrow> edgesInHeap h m)"

definition buildInv :: "BuildContext \<Rightarrow> heap \<Rightarrow> bool" where
  "buildInv ctx h \<longleftrightarrow> oneEntryPerDir ctx h \<and> linksInHeap ctx h"

text \<open>
  How requirers are linked. The requirements of an entry are the keys of its \<open>requires\<close>
  map, its edges are what \<open>resolves\<close> has recorded for it. A requirement of the entry of
  directory \<open>dir\<close> is accounted for when it resolves to a directory that has been visited
  or when an edge is recorded under its name. The entry \<open>b\<close> of a directory \<open>D\<close> is linked
  from the entry \<open>a\<close> of \<open>dir\<close> via \<open>n\<close> when \<open>n\<close> is a requirement of \<open>a\<close> that resolves
  to \<open>D\<close> and the edge recorded for \<open>a\<close> under \<open>n\<close> is \<open>b\<close>; it is linked from its
  creator when it is linked so from an entry created before it.
\<close>

definition requirements :: "heap \<Rightarrow> addr \<Rightarrow> pkgname list" where
  "requirements h a = (case requires (deref h a) of None \<Rightarrow> [] | Some req \<Rightarrow> objKeys req)"







text \<open>What the walkers rely on and the builder would have to set up: a root container
  in the context, and owners on entries.\<close>

definition unlinked :: "BuildContext \<Rightarrow> heap \<Rightarrow> bool" where
  "unlinked ctx h \<longleftrightarrow> root ctx = None \<and> (\<forall>a. owner (deref h a) = None)"

section \<open>Walkers\<close>

text \<open>
  \<open>walkEntries\<close>: the visitor may mutate entries and its own captured state, so it
  transforms the heap together with a state of its own. The dependencies object of a
  value is read from the heap as it is when the loop reaches that value. The recursion
  is bounded by fuel and the loop takes the recursive call as its first argument.
\<close>

type_synonym 'u visitor = "addr \<Rightarrow> heap \<times> 'u \<Rightarrow> heap \<times> 'u"

fun walkEntries_loop ::
  "(EntryDeps option \<Rightarrow> heap \<times> 'u \<Rightarrow> (heap \<times> 'u) option) \<Rightarrow> 'u visitor \<Rightarrow> addr list \<Rightarrow>
   heap \<times> 'u \<Rightarrow> (heap \<times> 'u) option" where
  "walkEntries_loop rec walker [] s = Some s"
| "walkEntries_loop rec walker (v # rest) s =
     (case rec (dependencies (deref (fst s) v)) s of
        None \<Rightarrow> None
      | Some s1 \<Rightarrow> walkEntries_loop rec walker rest (walker v s1))"

fun walkEntries ::
  "nat \<Rightarrow> 'u visitor \<Rightarrow> EntryDeps option \<Rightarrow> heap \<times> 'u \<Rightarrow> (heap \<times> 'u) option" where
  "walkEntries 0 walker deps s = None"
| "walkEntries (Suc fuel) walker deps s =
     (case deps of
        None \<Rightarrow> Some s
      | Some ds \<Rightarrow> walkEntries_loop (walkEntries fuel walker) walker (objValues ds) s)"

text \<open>
  The same traversal with a record of what it did: every call of the visitor appends the
  visited entry together with the values of the dependencies object that the walk read
  for it (none when the object is absent).
\<close>

type_synonym visit = "addr \<times> addr list"

definition childrenOf :: "heap \<Rightarrow> addr \<Rightarrow> addr list" where
  "childrenOf h a = (case dependencies (deref h a) of None \<Rightarrow> [] | Some ds \<Rightarrow> objValues ds)"

fun walkEntries_traced_loop ::
  "(EntryDeps option \<Rightarrow> (heap \<times> 'u) \<times> visit list \<Rightarrow> ((heap \<times> 'u) \<times> visit list) option) \<Rightarrow>
   'u visitor \<Rightarrow> addr list \<Rightarrow> (heap \<times> 'u) \<times> visit list \<Rightarrow> ((heap \<times> 'u) \<times> visit list) option" where
  "walkEntries_traced_loop rec walker [] st = Some st"
| "walkEntries_traced_loop rec walker (v # rest) st =
     (case rec (dependencies (deref (fst (fst st)) v)) st of
        None \<Rightarrow> None
      | Some (s1, tr1) \<Rightarrow>
          walkEntries_traced_loop rec walker rest
            (walker v s1, tr1 @ [(v, childrenOf (fst (fst st)) v)]))"

fun walkEntries_traced ::
  "nat \<Rightarrow> 'u visitor \<Rightarrow> EntryDeps option \<Rightarrow> (heap \<times> 'u) \<times> visit list \<Rightarrow>
   ((heap \<times> 'u) \<times> visit list) option" where
  "walkEntries_traced 0 walker deps st = None"
| "walkEntries_traced (Suc fuel) walker deps st =
     (case deps of
        None \<Rightarrow> Some st
      | Some ds \<Rightarrow>
          walkEntries_traced_loop (walkEntries_traced fuel walker) walker (objValues ds) st)"

text \<open>Post-order, on a record of visits: whatever a visit lists as children was visited
  at an earlier position.\<close>

definition postOrder :: "visit list \<Rightarrow> bool" where
  "postOrder tr \<longleftrightarrow>
     (\<forall>i < length tr. \<forall>c \<in> set (snd (tr ! i)). \<exists>j < i. fst (tr ! j) = c)"

text \<open>A record of visits covers a dependencies object when every value of the object
  has a visit in it.\<close>

definition covers :: "EntryDeps option \<Rightarrow> visit list \<Rightarrow> bool" where
  "covers deps tr \<longleftrightarrow>
     (case deps of None \<Rightarrow> True | Some ds \<Rightarrow> set (objValues ds) \<subseteq> fst ` set tr)"

subsection \<open>Scope resolution\<close>

definition resolveDependencyEntryIfExists :: "Entry \<Rightarrow> pkgname \<Rightarrow> ref option" where
  "resolveDependencyEntryIfExists parent depName =
     (case dependencies parent of None \<Rightarrow> None | Some ds \<Rightarrow> getProp ds depName)"

text \<open>
  The \<open>while\<close> loop of \<open>resolveDependencyEntry\<close>. It follows \<open>owner\<close> references and does
  not return when they form a cycle in which no container provides the name, so it is a
  partial function: \<open>None\<close> is the run that never leaves the loop.
\<close>

partial_function (option) resolveDependencyEntry_loop ::
  "heap \<Rightarrow> addr option \<Rightarrow> pkgname \<Rightarrow> (error + ref) option" where
  "resolveDependencyEntry_loop h curOwner depName =
     (case curOwner of
        None \<Rightarrow> Some (Inl InternalError)
      | Some cur \<Rightarrow>
          (case resolveDependencyEntryIfExists (deref h cur) depName of
             Some res \<Rightarrow> Some (Inr res)
           | None \<Rightarrow> resolveDependencyEntry_loop h (owner (deref h cur)) depName))"

declare resolveDependencyEntry_loop.simps [code]

definition resolveDependencyEntry :: "heap \<Rightarrow> addr \<Rightarrow> pkgname \<Rightarrow> pkgname \<Rightarrow> ref outcome" where
  "resolveDependencyEntry h parent parentName depName =
     resolveDependencyEntry_loop h (Some parent) depName"

text \<open>The containers that the loop inspects, in order, when the chain of owners ends.\<close>

inductive ownerChain :: "heap \<Rightarrow> addr option \<Rightarrow> addr list \<Rightarrow> bool" for h :: heap where
  ownerChain_end: "ownerChain h None []"
| ownerChain_step: "ownerChain h (owner (deref h cur)) cs \<Longrightarrow> ownerChain h (Some cur) (cur # cs)"

definition ownerWf :: "heap \<Rightarrow> bool" where
  "ownerWf h \<longleftrightarrow> wf {(own, a). owner (deref h a) = Some own}"

text \<open>
  The answer in the words of the specification. A container provides a name when its
  nested dependencies map is present and binds the name; the nearest provider on a chain
  is the first container of the chain that provides the name, and the answer is the
  entry bound there.
\<close>

definition provides :: "heap \<Rightarrow> pkgname \<Rightarrow> addr \<Rightarrow> bool" where
  "provides h depName c \<longleftrightarrow>
     (case dependencies (deref h c) of None \<Rightarrow> False | Some ds \<Rightarrow> depName \<in> fst ` set ds)"

definition nearestProvider :: "heap \<Rightarrow> addr list \<Rightarrow> pkgname \<Rightarrow> addr option" where
  "nearestProvider h cs depName =
     (case List.find (provides h depName) cs of
        None \<Rightarrow> None
      | Some c \<Rightarrow> objMap (dependencies (deref h c)) depName)"

subsection \<open>Logical reachability\<close>

text \<open>
  \<open>walkDeps\<close>: the visitor is called on every resolved requirement. A \<open>Set\<close> of entries
  is a list in insertion order; \<open>walked.add(entry)\<close> runs only after \<open>walked.has(entry)\<close>
  was false, so it appends. The visitor passed by \<open>walkNonSubsetDeps\<close> changes no entry,
  so visitors here transform a state of their own and the heap is only read. What is
  walked is whatever resolution returned: an inherited member has no \<open>requires\<close>, so the
  walk returns from it at once.
\<close>

fun walkDeps_loop ::
  "(pkgname \<Rightarrow> ref \<Rightarrow> 'u \<Rightarrow> ref list option \<Rightarrow> ('u \<times> ref list) outcome) \<Rightarrow>
   heap \<Rightarrow> pkgname \<Rightarrow> addr \<Rightarrow> (ref \<Rightarrow> 'u \<Rightarrow> 'u) \<Rightarrow> pkgname list \<Rightarrow> 'u \<Rightarrow> ref list \<Rightarrow>
   ('u \<times> ref list) outcome" where
  "walkDeps_loop rec h entryName entry walker [] u walked = Some (Inr (u, walked))"
| "walkDeps_loop rec h entryName entry walker (packageName # rest) u walked =
     (case resolveDependencyEntry h entry entryName packageName of
        None \<Rightarrow> None
      | Some (Inl e) \<Rightarrow> Some (Inl e)
      | Some (Inr resolvedEntry) \<Rightarrow>
          (case rec packageName resolvedEntry (walker resolvedEntry u) (Some walked) of
             None \<Rightarrow> None
           | Some (Inl e) \<Rightarrow> Some (Inl e)
           | Some (Inr (u1, walked1)) \<Rightarrow>
               walkDeps_loop rec h entryName entry walker rest u1 walked1))"

fun walkDeps ::
  "nat \<Rightarrow> heap \<Rightarrow> (ref \<Rightarrow> 'u \<Rightarrow> 'u) \<Rightarrow> pkgname \<Rightarrow> ref \<Rightarrow> 'u \<Rightarrow> ref list option \<Rightarrow>
   ('u \<times> ref list) outcome" where
  "walkDeps 0 h walker entryName entry u walked = None"
| "walkDeps (Suc fuel) h walker entryName entry u walked =
     (let walked0 = (case walked of None \<Rightarrow> [] | Some ws \<Rightarrow> ws)
      in if entry \<in> set walked0 then Some (Inr (u, walked0))
         else
           (let walked1 = walked0 @ [entry]
            in case entry of
                 Inherited _ \<Rightarrow> Some (Inr (u, walked1))
               | EntryRef a \<Rightarrow>
                   (case requires (deref h a) of
                      None \<Rightarrow> Some (Inr (u, walked1))
                    | Some req \<Rightarrow>
                        walkDeps_loop (walkDeps fuel h walker) h entryName a walker
                          (objKeys req) u walked1)))"

text \<open>
  The logical requires graph: what the keys of an entry's \<open>requires\<close> map resolve to, in
  key order (\<open>targetsOf\<close> for a list of keys of the entry), the edges this gives, and
  what is reachable from an entry along them. An inherited member has no edges.
\<close>

definition targetsOf :: "heap \<Rightarrow> addr \<Rightarrow> pkgname list \<Rightarrow> ref list" where
  "targetsOf h a ks =
     List.map_filter
       (\<lambda>k. case resolveDependencyEntry h a [] k of Some (Inr b) \<Rightarrow> Some b | _ \<Rightarrow> None) ks"

definition edgeTargets :: "heap \<Rightarrow> ref \<Rightarrow> ref list" where
  "edgeTargets h r =
     (case r of
        Inherited _ \<Rightarrow> []
      | EntryRef a \<Rightarrow>
          (case requires (deref h a) of None \<Rightarrow> [] | Some req \<Rightarrow> targetsOf h a (objKeys req)))"

definition logicalEdges :: "heap \<Rightarrow> (ref \<times> ref) set" where
  "logicalEdges h = {(a, b). b \<in> set (edgeTargets h a)}"

definition reachable :: "heap \<Rightarrow> ref \<Rightarrow> ref set" where
  "reachable h e = (logicalEdges h)\<^sup>* `` {e}"

text \<open>
  What a completed part of the walk has done, from the visitor state \<open>u\<close> and the set
  \<open>walked\<close>: it appended the entries \<open>new\<close>, each once, all of them reachable from
  \<open>src\<close>; it called the visitor once for every target in \<open>ts\<close> and once for every edge
  of every entry of \<open>new\<close>; and every edge of an entry of \<open>new\<close> leads into the set.
\<close>

definition walkPost ::
  "heap \<Rightarrow> (ref \<Rightarrow> 'u \<Rightarrow> 'u) \<Rightarrow> ref set \<Rightarrow> ref list \<Rightarrow> 'u \<Rightarrow> ref list \<Rightarrow> 'u \<Rightarrow> ref list \<Rightarrow> bool" where
  "walkPost h walker src ts u walked u' walked' \<longleftrightarrow>
     (\<exists>new sq. walked' = walked @ new \<and> distinct walked'
        \<and> u' = fold walker sq u
        \<and> mset sq = mset ts + (\<Sum>a\<leftarrow>new. mset (edgeTargets h a))
        \<and> set new \<subseteq> (logicalEdges h)\<^sup>* `` src
        \<and> (\<forall>a \<in> set new. set (edgeTargets h a) \<subseteq> set walked'))"

text \<open>\<open>subsetDeps.add(e)\<close>, on a \<open>Set\<close> where the entry may be present already.\<close>

definition setAdd :: "'a \<Rightarrow> 'a list \<Rightarrow> 'a list" where
  "setAdd x xs = (if x \<in> set xs then xs else xs @ [x])"

fun walkNonSubsetDeps_loop ::
  "nat \<Rightarrow> heap \<Rightarrow> EntryDeps \<Rightarrow> pkgname list \<Rightarrow> ref list \<Rightarrow> (ref list) outcome" where
  "walkNonSubsetDeps_loop fuel h rootDependencies [] subsetDeps = Some (Inr subsetDeps)"
| "walkNonSubsetDeps_loop fuel h rootDependencies (packageName # rest) subsetDeps =
     (case getProp rootDependencies packageName of
        None \<Rightarrow> walkNonSubsetDeps_loop fuel h rootDependencies rest subsetDeps
      | Some entry \<Rightarrow>
          (case walkDeps fuel h setAdd packageName entry (setAdd entry subsetDeps) None of
             None \<Rightarrow> None
           | Some (Inl e) \<Rightarrow> Some (Inl e)
           | Some (Inr (subsetDeps1, _)) \<Rightarrow>
               walkNonSubsetDeps_loop fuel h rootDependencies rest subsetDeps1))"

text \<open>
  \<open>walkNonSubsetDeps\<close>. Reading \<open>ctx.root.dependencies\<close> when \<open>ctx.root\<close> is undefined
  throws a \<open>TypeError\<close>.
\<close>

definition walkNonSubsetDeps ::
  "nat \<Rightarrow> BuildContext \<Rightarrow> heap \<Rightarrow> pkgname list \<Rightarrow> 'u visitor \<Rightarrow> 'u \<Rightarrow> (heap \<times> 'u) outcome" where
  "walkNonSubsetDeps fuel ctx h subsetNames walker u =
     (case root ctx of
        None \<Rightarrow> Some (Inl TypeError)
      | Some r \<Rightarrow>
          (case dependencies (deref h r) of
             None \<Rightarrow> Some (Inr (h, u))
           | Some rootDependencies \<Rightarrow>
               (case walkNonSubsetDeps_loop fuel h rootDependencies subsetNames [] of
                  None \<Rightarrow> None
                | Some (Inl e) \<Rightarrow> Some (Inl e)
                | Some (Inr subsetDeps) \<Rightarrow>
                    (case walkEntries fuel
                            (\<lambda>e s. if EntryRef e \<notin> set subsetDeps then walker e s else s)
                            (Some rootDependencies) (h, u) of
                       None \<Rightarrow> None
                     | Some s \<Rightarrow> Some (Inr s)))))"

text \<open>The entries of the tree below a list of values: the values, and whatever is nested
  in the dependencies object of an entry of the tree.\<close>

inductive inTree :: "heap \<Rightarrow> addr list \<Rightarrow> addr \<Rightarrow> bool" for h :: heap where
  inTree_top: "v \<in> set vs \<Longrightarrow> inTree h vs v"
| inTree_nested: "v \<in> set vs \<Longrightarrow> inTree h (childrenOf h v) a \<Longrightarrow> inTree h vs a"

text \<open>An entry is clean when neither of its two maps is present and empty. A heap \<open>h'\<close>
  is a stripped version of \<open>h\<close> below \<open>vs\<close> when nesting is the same in both, clean
  entries stayed clean, and the tree below \<open>vs\<close> is clean.\<close>

definition clean :: "Entry \<Rightarrow> bool" where
  "clean e \<longleftrightarrow> dependencies e \<noteq> Some [] \<and> requires e \<noteq> Some []"

definition stripped :: "heap \<Rightarrow> addr list \<Rightarrow> heap \<Rightarrow> bool" where
  "stripped h vs h' \<longleftrightarrow>
     (\<forall>a. childrenOf h' a = childrenOf h a)
     \<and> (\<forall>a. clean (deref h a) \<longrightarrow> clean (deref h' a))
     \<and> (\<forall>a. inTree h vs a \<longrightarrow> clean (deref h' a))"

subsection \<open>Classification\<close>

text \<open>
  The entries logically reachable from a list of root requirement names: each name that
  the root dependencies object has contributes what is reachable from what it reads.
\<close>

definition subsetReach :: "heap \<Rightarrow> EntryDeps \<Rightarrow> pkgname list \<Rightarrow> addr set" where
  "subsetReach h rootDependencies names =
     {a. \<exists>n \<in> set names. \<exists>e. getProp rootDependencies n = Some e \<and> EntryRef a \<in> reachable h e}"

text \<open>
  A visitor that only sets a flag: it replaces the visited entry by \<open>upd\<close> of it, where
  \<open>upd\<close> leaves \<open>dependencies\<close>, \<open>requires\<close> and \<open>owner\<close> alone and changes nothing
  when applied again. A heap \<open>h'\<close> is \<open>h\<close> marked below \<open>vs\<close> outside \<open>S\<close> when exactly the
  entries of the tree below \<open>vs\<close> that are not in \<open>S\<close> were replaced.
\<close>

definition flagOnly :: "(Entry \<Rightarrow> Entry) \<Rightarrow> bool" where
  "flagOnly upd \<longleftrightarrow>
     (\<forall>e. dependencies (upd e) = dependencies e \<and> requires (upd e) = requires e
          \<and> owner (upd e) = owner e \<and> upd (upd e) = upd e)"

definition flagVisitor :: "(Entry \<Rightarrow> Entry) \<Rightarrow> 'u visitor \<Rightarrow> bool" where
  "flagVisitor upd v \<longleftrightarrow> (\<forall>e s. fst (v e s) = (fst s)[e := upd (deref (fst s) e)])"

definition marked :: "addr set \<Rightarrow> (Entry \<Rightarrow> Entry) \<Rightarrow> heap \<Rightarrow> addr list \<Rightarrow> heap \<Rightarrow> bool" where
  "marked S upd h vs h' \<longleftrightarrow>
     length h' = length h
     \<and> (\<forall>a. deref h' a =
            (if a < length h \<and> inTree h vs a \<and> a \<notin> S then upd (deref h a) else deref h a))"

text \<open>Two heaps agree on structure when every entry has the same \<open>dependencies\<close>,
  \<open>requires\<close> and \<open>owner\<close> in both.\<close>

definition sameStructure :: "heap \<Rightarrow> heap \<Rightarrow> bool" where
  "sameStructure h h' \<longleftrightarrow>
     (\<forall>a. dependencies (deref h' a) = dependencies (deref h a)
          \<and> requires (deref h' a) = requires (deref h a)
          \<and> owner (deref h' a) = owner (deref h a))"

section \<open>Lockfile assembly\<close>

definition markDev :: "unit visitor" where
  "markDev e s = ((fst s)[e := (deref (fst s) e)\<lparr>dev := Some True\<rparr>], snd s)"

definition markOptional :: "unit visitor" where
  "markOptional e s = ((fst s)[e := (deref (fst s) e)\<lparr>optional := Some True\<rparr>], snd s)"

definition markDevDeps :: "nat \<Rightarrow> world \<Rightarrow> BuildContext \<Rightarrow> heap \<Rightarrow> heap outcome" where
  "markDevDeps fuel w ctx h =
     (case read w (startDir ctx) of
        Inl e \<Rightarrow> Some (Inl e)
      | Inr man \<Rightarrow>
          (let nonDevDeps = objSpread (objSpread (objSpread [] (m_dependencies man))
                               (m_optionalDependencies man)) (m_peerDependencies man)
           in map_option (map_sum id fst)
                (walkNonSubsetDeps fuel ctx h (objKeys nonDevDeps) markDev ())))"

definition markOptionalDeps :: "nat \<Rightarrow> world \<Rightarrow> BuildContext \<Rightarrow> heap \<Rightarrow> heap outcome" where
  "markOptionalDeps fuel w ctx h =
     (case read w (startDir ctx) of
        Inl e \<Rightarrow> Some (Inl e)
      | Inr man \<Rightarrow>
          (let nonOptionalDeps = objSpread (objSpread (objSpread [] (m_dependencies man))
                               (m_devDependencies man)) (m_peerDependencies man)
           in map_option (map_sum id fst)
                (walkNonSubsetDeps fuel ctx h (objKeys nonOptionalDeps) markOptional ())))"

text \<open>The visitor of the cleanup pass: an empty \<open>dependencies\<close> or \<open>requires\<close> object is deleted.\<close>

definition stripEmpty :: "unit visitor" where
  "stripEmpty dep s =
     (let e = deref (fst s) dep;
          e1 = (if dependencies e = Some [] then e\<lparr>dependencies := None\<rparr> else e);
          e2 = (if requires e1 = Some [] then e1\<lparr>requires := None\<rparr> else e1)
      in ((fst s)[dep := e2], snd s))"

text \<open>\<open>ctx.rootDeps = {...entry.dependencies, ...ctx.rootDeps}\<close>.\<close>

definition mergeRootDeps :: "BuildContext \<Rightarrow> heap \<Rightarrow> addr \<Rightarrow> BuildContext" where
  "mergeRootDeps ctx h entry =
     ctx\<lparr>rootDeps := objSpread (objSpread [] (dependencies (deref h entry))) (Some (rootDeps ctx))\<rparr>"

record lockfile =
  lf_name :: string
  lf_version :: string
  lf_lockfileVersion :: nat
  lf_requires :: bool
  lf_dependencies :: EntryDeps

definition initialContext :: "dir \<Rightarrow> dir \<Rightarrow> BuildContext" where
  "initialContext d pkgsDir =
     \<lparr>packagesDir = pkgsDir, startDir = d, rootDeps = [], visited = {},
      moduleDirs = Map.empty, resolves = Map.empty, root = None\<rparr>"

text \<open>
  \<open>generateLockfile\<close>: \<open>Inr None\<close> is the run that returns \<open>undefined\<close> because the
  directory has no manifest. The lockfile comes with the heap its entries live in.
\<close>

definition generateLockfile :: "nat \<Rightarrow> world \<Rightarrow> dir \<Rightarrow> dir \<Rightarrow> ((lockfile \<times> heap) option) outcome" where
  "generateLockfile fuel w d pkgsDir =
     (case readIfExists w d of
        Inl e \<Rightarrow> Some (Inl e)
      | Inr None \<Rightarrow> Some (Inr None)
      | Inr (Some man) \<Rightarrow>
          (case buildLockfileEntry fuel w (initialContext d pkgsDir) [] d True of
             None \<Rightarrow> None
           | Some (Inl e) \<Rightarrow> Some (Inl e)
           | Some (Inr (entry, ctx1, h1)) \<Rightarrow>
               (let ctx2 = mergeRootDeps ctx1 h1 entry
                in case walkEntries fuel stripEmpty (Some (rootDeps ctx2)) (h1, ()) of
                     None \<Rightarrow> None
                   | Some (h2, _) \<Rightarrow>
                       (case markDevDeps fuel w ctx2 h2 of
                          None \<Rightarrow> None
                        | Some (Inl e) \<Rightarrow> Some (Inl e)
                        | Some (Inr h3) \<Rightarrow>
                            (case markOptionalDeps fuel w ctx2 h3 of
                               None \<Rightarrow> None
                             | Some (Inl e) \<Rightarrow> Some (Inl e)
                             | Some (Inr h4) \<Rightarrow>
                                 Some (Inr (Some
                                   (\<lparr>lf_name = m_name man, lf_version = m_version man,
                                     lf_lockfileVersion = 1, lf_requires = True,
                                     lf_dependencies = rootDeps ctx2\<rparr>, h4))))))))"

section \<open>Example installations\<close>

text \<open>A world given by the table of its manifests and the table of what resolves where.\<close>

definition tableWorld :: "(dir \<times> manifest) list \<Rightarrow> ((dir \<times> pkgname) \<times> dir) list \<Rightarrow> world" where
  "tableWorld manifests locations =
     \<lparr>read = (\<lambda>d. case map_of manifests d of None \<Rightarrow> Inl ManifestFailure | Some man \<Rightarrow> Inr man),
      readIfExists = (\<lambda>d. Inr (map_of manifests d)),
      resolvePackageLocation =
        (\<lambda>d n. case map_of locations (d, n) of None \<Rightarrow> Inl ModuleNotFound | Some r \<Rightarrow> Inr r)\<rparr>"

definition pkg :: "string \<Rightarrow> string \<Rightarrow> ranges \<Rightarrow> ranges \<Rightarrow> ranges \<Rightarrow> manifest" where
  "pkg n v deps opt devs =
     \<lparr>m_name = n, m_version = v, m_integrity = None, m_resolved = None,
      m_dependencies = (if deps = [] then None else Some deps),
      m_optionalDependencies = (if opt = [] then None else Some opt),
      m_devDependencies = (if devs = [] then None else Some devs),
      m_peerDependencies = None\<rparr>"

text \<open>
  A workspace \<open>/w\<close> with the package \<open>/w/packages/r\<close>. The package declares \<open>a\<close>, \<open>d\<close> and
  \<open>c\<close>, the optional \<open>x\<close> (not installed) and \<open>a\<close> again with another range, and the
  development dependency \<open>b\<close>. \<open>a\<close>, \<open>b\<close> and one copy of \<open>c\<close> sit in the package's own
  \<open>node_modules\<close>; \<open>d\<close> and a second copy of \<open>c\<close>, which \<open>d\<close> and \<open>b\<close> find, are hoisted to
  \<open>/w/node_modules\<close>.
\<close>

definition demoRoot :: dir where
  "demoRoot = [''w'', ''packages'', ''r'']"

definition demoPackages :: dir where
  "demoPackages = [''w'', ''packages'']"

definition demoManifest :: manifest where
  "demoManifest = pkg ''r'' ''1.0.0'' [(''a'', ''^1''), (''d'', ''^1''), (''c'', ''^1'')]
                   [(''x'', ''^1''), (''a'', ''^2'')] [(''b'', ''^1'')]"

definition demoWorld :: world where
  "demoWorld = tableWorld
     [(demoRoot, demoManifest),
      (demoRoot @ [''node_modules'', ''a''], pkg ''a'' ''2.0.0'' [] [] []),
      (demoRoot @ [''node_modules'', ''b''], pkg ''b'' ''1.2.0'' [(''e'', ''^1'')] [] [(''zz'', ''*'')]),
      (demoRoot @ [''node_modules'', ''c''], pkg ''c'' ''1.0.1'' [] [] []),
      (demoRoot @ [''node_modules'', ''b'', ''node_modules'', ''e''], pkg ''e'' ''1.0.0'' [(''c'', ''^1'')] [] []),
      ([''w'', ''node_modules'', ''d''], pkg ''d'' ''1.0.0'' [(''c'', ''^1.5'')] [] []),
      ([''w'', ''node_modules'', ''c''], pkg ''c'' ''1.5.0'' [] [] [])]
     [((demoRoot, ''a''), demoRoot @ [''node_modules'', ''a'']),
      ((demoRoot, ''b''), demoRoot @ [''node_modules'', ''b'']),
      ((demoRoot, ''c''), demoRoot @ [''node_modules'', ''c'']),
      ((demoRoot, ''d''), [''w'', ''node_modules'', ''d'']),
      ((demoRoot @ [''node_modules'', ''b''], ''e''),
         demoRoot @ [''node_modules'', ''b'', ''node_modules'', ''e'']),
      ((demoRoot @ [''node_modules'', ''b'', ''node_modules'', ''e''], ''c''),
         demoRoot @ [''node_modules'', ''c'']),
      (([''w'', ''node_modules'', ''d''], ''c''), [''w'', ''node_modules'', ''c''])]"

definition demoBuild :: "(addr \<times> BuildContext \<times> heap) outcome" where
  "demoBuild = buildLockfileEntry 5 demoWorld (initialContext demoRoot demoPackages) [] demoRoot True"

text \<open>
  A workspace with \<open>node_modules\<close> directories at two levels above the package
  \<open>/w/packages/r\<close>. The package requires \<open>b\<close>, found in \<open>/w/packages/node_modules\<close>; that
  \<open>b\<close> requires \<open>x\<close>, found in \<open>/w/node_modules\<close>; and \<open>x\<close> requires \<open>b\<close>, for which it
  finds the other copy, in \<open>/w/node_modules\<close>.
\<close>

definition twoLevelWorld :: world where
  "twoLevelWorld = tableWorld
     [(demoRoot, pkg ''r'' ''1.0.0'' [(''b'', ''^2'')] [] []),
      ([''w'', ''packages'', ''node_modules'', ''b''], pkg ''b'' ''2.0.0'' [(''x'', ''^1'')] [] []),
      ([''w'', ''node_modules'', ''x''], pkg ''x'' ''1.0.0'' [(''b'', ''^1'')] [] []),
      ([''w'', ''node_modules'', ''b''], pkg ''b'' ''1.0.0'' [] [] [])]
     [((demoRoot, ''b''), [''w'', ''packages'', ''node_modules'', ''b'']),
      (([''w'', ''packages'', ''node_modules'', ''b''], ''x''), [''w'', ''node_modules'', ''x'']),
      (([''w'', ''node_modules'', ''x''], ''b''), [''w'', ''node_modules'', ''b''])]"



text \<open>
  A hand-made tree with owners: the root container (address 0) holds \<open>a\<close> and \<open>c\<close>; \<open>a\<close>
  holds its own copy of \<open>n\<close>; \<open>n\<close> requires \<open>c\<close> and \<open>zz\<close>.
\<close>

definition scopeHeap :: heap where
  "scopeHeap =
     [noEntry\<lparr>dependencies := Some [(''a'', 1), (''c'', 2)]\<rparr>,
      noEntry\<lparr>version := ''1.0.0'', dependencies := Some [(''n'', 3)],
              requires := Some [(''n'', ''^1'')], owner := Some 0\<rparr>,
      noEntry\<lparr>version := ''1.0.0'', owner := Some 0\<rparr>,
      noEntry\<lparr>version := ''1.0.0'', requires := Some [(''c'', ''^1''), (''zz'', ''*'')],
              owner := Some 1\<rparr>]"

text \<open>The state in which the root's loop of the two-level workspace starts: the root entry
  has been created and registered.\<close>

definition twoLevelManifest :: manifest where
  "twoLevelManifest = pkg ''r'' ''1.0.0'' [(''b'', ''^2'')] [] []"

definition twoLevelCtx1 :: BuildContext where
  "twoLevelCtx1 = (initialContext demoRoot demoPackages)
     \<lparr>visited := {demoRoot}, moduleDirs := [demoRoot \<mapsto> 0], resolves := [0 \<mapsto> []]\<rparr>"

definition twoLevelHeap1 :: heap where
  "twoLevelHeap1 = [newEntry twoLevelManifest [(''b'', ''^2'')]]"

text \<open>Mutual requirement: the root container (address 0) holds \<open>a\<close> and \<open>b\<close>; \<open>a\<close>
  requires \<open>b\<close> and \<open>b\<close> requires \<open>a\<close>.\<close>

definition cycleHeap :: heap where
  "cycleHeap =
     [noEntry\<lparr>dependencies := Some [(''a'', 1), (''b'', 2)]\<rparr>,
      noEntry\<lparr>version := ''1.0.0'', requires := Some [(''b'', ''^1'')], owner := Some 0\<rparr>,
      noEntry\<lparr>version := ''1.0.0'', requires := Some [(''a'', ''^1'')], owner := Some 0\<rparr>]"

section \<open>The requires map\<close>

lemma fst_set_insertIndexed:
  "fst ` set (insertIndexed i k v obj) = insert k (fst ` set obj)"
  by (induction obj) (auto split: option.splits)

lemma set_insertIndexed:
  "set (insertIndexed i k v obj) = insert (k, v) (set obj)"
  by (induction obj) (auto split: option.splits)

lemma map_of_insertIndexed:
  "k \<notin> fst ` set obj \<Longrightarrow> map_of (insertIndexed i k v obj) = (map_of obj)(k \<mapsto> v)"
  by (induction obj) (auto simp: fun_eq_iff split: option.splits)

lemma distinct_insertIndexed:
  "distinct (map fst obj) \<Longrightarrow> k \<notin> fst ` set obj \<Longrightarrow>
   distinct (map fst (insertIndexed i k v obj))"
  by (induction obj) (auto simp: fst_set_insertIndexed split: option.splits)

lemma map_of_objSet: "map_of (objSet k v obj) = (map_of obj)(k \<mapsto> v)"
  by (auto simp: objSet_def map_of_insertIndexed update_conv' split: option.splits)

lemma distinct_objSet: "distinct (map fst obj) \<Longrightarrow> distinct (map fst (objSet k v obj))"
  by (auto simp: objSet_def distinct_update distinct_insertIndexed split: option.splits)

lemma set_AList_update:
  "x \<in> set (AList.update k v al) \<Longrightarrow> x = (k, v) \<or> x \<in> set al"
  by (induction al) (auto split: if_splits)

lemma set_objSet: "x \<in> set (objSet k v obj) \<Longrightarrow> x = (k, v) \<or> x \<in> set obj"
  by (auto simp: objSet_def set_insertIndexed split: option.splits if_splits
           dest!: set_AList_update)

lemma map_of_fold_objSet:
  "distinct (map fst kvs) \<Longrightarrow>
   map_of (fold (\<lambda>(k, v). objSet k v) kvs acc) = map_of acc ++ map_of kvs"
proof (induction kvs arbitrary: acc)
  case Nil
  then show ?case by simp
next
  case (Cons kv kvs)
  obtain k v where kv: "kv = (k, v)" by (cases kv)
  from Cons.prems kv have nk: "map_of kvs k = None" and d: "distinct (map fst kvs)"
    by (auto simp: map_of_eq_None_iff)
  have "map_of (fold (\<lambda>(k, v). objSet k v) (kv # kvs) acc)
        = (map_of acc)(k \<mapsto> v) ++ map_of kvs"
    by (simp add: kv Cons.IH [OF d] map_of_objSet)
       (auto simp: fun_eq_iff map_add_def split: option.splits)
  also have "\<dots> = map_of acc ++ map_of (kv # kvs)"
    using nk by (auto simp: kv map_add_def fun_eq_iff split: option.splits)
  finally show ?case .
qed

lemma map_of_objSpread:
  "wfObj src \<Longrightarrow> map_of (objSpread acc src) = map_of acc ++ objMap src"
  by (cases src) (simp_all add: objSpread_def objMap_def wfObj_def map_of_fold_objSet)

lemma distinct_fold_objSet:
  "distinct (map fst acc) \<Longrightarrow> distinct (map fst (fold (\<lambda>(k, v). objSet k v) kvs acc))"
  by (induction kvs arbitrary: acc) (auto simp: distinct_objSet)

lemma distinct_objSpread:
  "distinct (map fst acc) \<Longrightarrow> distinct (map fst (objSpread acc src))"
  by (cases src) (simp_all add: objSpread_def distinct_fold_objSet)

lemma getRequires_loop_ok:
  assumes "\<forall>n \<in> set ns. \<forall>e. isInstalled w d n \<noteq> Inl e"
  shows "\<exists>r. getRequires_loop w d ns req = Inr r
           \<and> map_of r = (\<lambda>n. if n \<in> set ns \<and> isInstalled w d n = Inr False then None
                              else map_of req n)
           \<and> (distinct (map fst req) \<longrightarrow> distinct (map fst r))"
  using assms
proof (induction ns arbitrary: req)
  case Nil
  then show ?case by simp
next
  case (Cons n ns)
  from Cons.prems obtain b where b: "isInstalled w d n = Inr b"
    by (cases "isInstalled w d n") auto
  let ?req = "if \<not> b then AList.delete n req else req"
  from Cons.prems have "\<forall>n \<in> set ns. \<forall>e. isInstalled w d n \<noteq> Inl e" by simp
  from Cons.IH [OF this, of ?req] obtain r where
    r: "getRequires_loop w d ns ?req = Inr r"
       "map_of r = (\<lambda>m. if m \<in> set ns \<and> isInstalled w d m = Inr False then None
                              else map_of ?req m)"
       "distinct (map fst ?req) \<longrightarrow> distinct (map fst r)"
    by blast
  have "getRequires_loop w d (n # ns) req = Inr r" using b r(1) by simp
  moreover have "map_of r = (\<lambda>m. if m \<in> set (n # ns) \<and> isInstalled w d m = Inr False then None
                              else map_of req m)"
    using b by (auto simp: r(2) fun_eq_iff delete_conv')
  moreover have "distinct (map fst req) \<longrightarrow> distinct (map fst r)"
    using r(3) by (auto simp: distinct_delete)
  ultimately show ?case by blast
qed

text \<open>
  Claim C4. For a directory whose manifest can be read and whose dependency maps are
  objects (no key twice), and as long as the module locator fails in no other way than
  not-found, \<open>getRequires\<close> returns without an error, and the map it returns is the
  declared dependencies overridden by the optional dependencies, overridden by the
  development dependencies exactly when \<open>includeDev\<close> is set, with every name removed
  whose installed location is not found.
\<close>

theorem getRequires_spec:
  assumes man: "read w d = Inr man"
    and wf: "wfObj (m_dependencies man)" "wfObj (m_optionalDependencies man)"
            "wfObj (m_devDependencies man)"
    and loc: "\<forall>n e. resolvePackageLocation w d n = Inl e \<longrightarrow> e = ModuleNotFound"
  shows "\<exists>req. getRequires w d includeDev = Inr req
           \<and> distinct (map fst req)
           \<and> map_of req = requires_spec man includeDev
                (\<lambda>n. \<exists>loc. resolvePackageLocation w d n = Inr loc)"
proof -
  let ?req = "objSpread (objSpread (objSpread [] (m_dependencies man))
                        (m_optionalDependencies man))
                        (if includeDev then m_devDependencies man else None)"
  have inst: "isInstalled w d n = Inr (\<exists>loc. resolvePackageLocation w d n = Inr loc)" for n
    using loc by (cases "resolvePackageLocation w d n") (auto simp: isInstalled_def)
  have dreq: "distinct (map fst ?req)"
    by (intro distinct_objSpread) simp
  have mreq: "map_of ?req = objMap (m_dependencies man) ++ objMap (m_optionalDependencies man)
                  ++ (if includeDev then objMap (m_devDependencies man) else Map.empty)"
    using wf by (simp add: map_of_objSpread wfObj_def objMap_def)
  have keys: "n \<in> set (objKeys ?req) \<longleftrightarrow> map_of ?req n \<noteq> None" for n
    by (simp add: objKeys_def map_of_eq_None_iff)
  have "\<forall>n \<in> set (objKeys ?req). \<forall>e. isInstalled w d n \<noteq> Inl e"
    by (simp add: inst)
  from getRequires_loop_ok [OF this, of ?req] obtain r where
    r: "getRequires_loop w d (objKeys ?req) ?req = Inr r"
       "map_of r = (\<lambda>n. if n \<in> set (objKeys ?req) \<and> isInstalled w d n = Inr False then None
                              else map_of ?req n)"
       "distinct (map fst r)"
    using dreq by blast
  have "getRequires w d includeDev = Inr r"
    using man r(1) by (simp add: getRequires_def Let_def)
  moreover have "map_of r = requires_spec man includeDev
                (\<lambda>n. \<exists>loc. resolvePackageLocation w d n = Inr loc)"
    unfolding r(2) requires_spec_def mreq [symmetric]
    by (auto simp: fun_eq_iff inst keys)
  ultimately show ?thesis using r(3) by blast
qed

text \<open>The theorem at the example package: \<open>x\<close> is declared optional and not installed,
  \<open>a\<close> is declared twice.\<close>

theorem getRequires_spec_witness:
  "read demoWorld demoRoot = Inr demoManifest
   \<and> (\<exists>req. getRequires demoWorld demoRoot True = Inr req
         \<and> distinct (map fst req)
         \<and> map_of req = requires_spec demoManifest True
              (\<lambda>n. \<exists>loc. resolvePackageLocation demoWorld demoRoot n = Inr loc))"
proof -
  have r: "read demoWorld demoRoot = Inr demoManifest"
    by (simp add: demoWorld_def tableWorld_def demoManifest_def)
  have wf: "wfObj (m_dependencies demoManifest)" "wfObj (m_optionalDependencies demoManifest)"
           "wfObj (m_devDependencies demoManifest)"
    by (simp_all add: demoManifest_def pkg_def wfObj_def)
  have loc: "\<forall>n e. resolvePackageLocation demoWorld demoRoot n = Inl e \<longrightarrow> e = ModuleNotFound"
    by (auto simp: demoWorld_def tableWorld_def split: option.splits)
  show ?thesis
    using r getRequires_spec [OF r wf loc, of True] by simp
qed

section \<open>The example installation, built\<close>

lemma demoBuild_facts:
  "case demoBuild of
     Some (Inr (e, c, h)) \<Rightarrow>
       e = 0 \<and> rootDeps c = [(''c'', 3), (''d'', 2)]
       \<and> dependencies (deref h e) = Some [(''a'', 1), (''c'', 4), (''b'', 5)]
   | _ \<Rightarrow> False"
  by code_simp

lemma demoBuild_obtain:
  obtains c h where "demoBuild = Some (Inr (0, c, h))"
    and "rootDeps c = [(''c'', 3), (''d'', 2)]"
    and "dependencies (deref h 0) = Some [(''a'', 1), (''c'', 4), (''b'', 5)]"
  using demoBuild_facts by (auto split: option.splits sum.splits)

section \<open>Scope resolution\<close>

lemma getProp_own:
  "depName \<notin> set objectPrototypeNames \<Longrightarrow>
   getProp ds depName = map_option EntryRef (map_of ds depName)"
  by (simp add: getProp_def split: option.splits)

lemma getProp_inherited:
  "depName \<in> set objectPrototypeNames \<Longrightarrow> map_of ds depName = None \<Longrightarrow>
   getProp ds depName = Some (Inherited depName)"
  by (simp add: getProp_def)

lemma resolveDependencyEntryIfExists_own:
  assumes "depName \<notin> set objectPrototypeNames"
  shows "resolveDependencyEntryIfExists (deref h c) depName =
           (if provides h depName c
            then map_option EntryRef (objMap (dependencies (deref h c)) depName) else None)"
    and "provides h depName c \<Longrightarrow> objMap (dependencies (deref h c)) depName \<noteq> None"
  using assms
  by (auto simp: resolveDependencyEntryIfExists_def provides_def objMap_def getProp_own
                 map_of_eq_None_iff
           split: option.splits dest: weak_map_of_SomeI)

lemma resolveDependencyEntry_loop_chain:
  assumes "ownerChain h cur cs" and own: "depName \<notin> set objectPrototypeNames"
  shows "resolveDependencyEntry_loop h cur depName =
     Some (case nearestProvider h cs depName of
             None \<Rightarrow> Inl InternalError
           | Some a \<Rightarrow> Inr (EntryRef a))"
  using assms(1)
proof (induction rule: ownerChain.induct)
  case ownerChain_end
  show ?case
    by (subst resolveDependencyEntry_loop.simps) (simp add: nearestProvider_def)
next
  case (ownerChain_step cur cs)
  show ?case
  proof (cases "provides h depName cur")
    case True
    with resolveDependencyEntryIfExists_own [OF own, of h cur]
    obtain a where a: "objMap (dependencies (deref h cur)) depName = Some a"
      and r: "resolveDependencyEntryIfExists (deref h cur) depName = Some (EntryRef a)"
      by auto
    from True a have "nearestProvider h (cur # cs) depName = Some a"
      by (simp add: nearestProvider_def)
    then show ?thesis
      by (subst resolveDependencyEntry_loop.simps) (simp add: r)
  next
    case False
    with resolveDependencyEntryIfExists_own [OF own, of h cur]
    have r: "resolveDependencyEntryIfExists (deref h cur) depName = None"
      by simp
    from False have "nearestProvider h (cur # cs) depName = nearestProvider h cs depName"
      by (simp add: nearestProvider_def)
    then show ?thesis
      by (subst resolveDependencyEntry_loop.simps) (simp add: r ownerChain_step.IH)
  qed
qed

lemma resolveDependencyEntry_loop_total:
  "ownerChain h cur cs \<Longrightarrow> \<exists>r. resolveDependencyEntry_loop h cur depName = Some r"
proof (induction rule: ownerChain.induct)
  case ownerChain_end
  show ?case by (subst resolveDependencyEntry_loop.simps) simp
next
  case (ownerChain_step cur cs)
  then show ?case
    by (subst resolveDependencyEntry_loop.simps) (simp split: option.splits)
qed

text \<open>
  For a name that is not a member of \<open>Object.prototype\<close>, scope resolution does what the
  specification says: when the chain of owners that starts at the requiring entry ends,
  with \<open>cs\<close> the containers on it in order, it returns the entry that the first container
  of \<open>cs\<close> providing the name binds, and fails with the internal error when no container
  of the chain provides the name.
\<close>

lemma resolveDependencyEntry_nearest_own:
  assumes "ownerChain h (Some parent) cs" and "depName \<notin> set objectPrototypeNames"
  shows "resolveDependencyEntry h parent parentName depName =
           Some (case nearestProvider h cs depName of
                   None \<Rightarrow> Inl InternalError
                 | Some a \<Rightarrow> Inr (EntryRef a))"
  using resolveDependencyEntry_loop_chain [OF assms]
  by (simp add: resolveDependencyEntry_def)

text \<open>
  For a member name of \<open>Object.prototype\<close> that no container of the chain binds, the
  first container on the chain whose dependencies map is present answers with the
  inherited member, and the resolution returns it.
\<close>

lemma resolveDependencyEntry_inherited:
  assumes "dependencies (deref h parent) = Some ds" and "map_of ds depName = None"
    and "depName \<in> set objectPrototypeNames"
  shows "resolveDependencyEntry h parent parentName depName = Some (Inr (Inherited depName))"
  unfolding resolveDependencyEntry_def
  by (subst resolveDependencyEntry_loop.simps)
     (simp add: resolveDependencyEntryIfExists_def getProp_inherited assms)

lemma scopeHeap_chain: "ownerChain scopeHeap (Some 3) [3, 1, 0]"
proof -
  have o3: "owner (deref scopeHeap 3) = Some 1"
    and o1: "owner (deref scopeHeap 1) = Some 0"
    and o0: "owner (deref scopeHeap 0) = None"
    by (simp_all add: scopeHeap_def deref_def noEntry_def)
  have "ownerChain scopeHeap (owner (deref scopeHeap 0)) []"
    by (simp only: o0 ownerChain_end)
  then have "ownerChain scopeHeap (Some 0) [0]"
    by (rule ownerChain_step)
  then have "ownerChain scopeHeap (owner (deref scopeHeap 1)) [0]"
    by (simp only: o1)
  then have "ownerChain scopeHeap (Some 1) [1, 0]"
    by (rule ownerChain_step)
  then have "ownerChain scopeHeap (owner (deref scopeHeap 3)) [1, 0]"
    by (simp only: o3)
  then show ?thesis
    by (rule ownerChain_step)
qed

lemma scopeHeap_own:
  "resolveDependencyEntry scopeHeap 3 ''n'' ''c'' = Some (Inr (EntryRef 2))
   \<and> resolveDependencyEntry scopeHeap 3 ''n'' ''zz'' = Some (Inl InternalError)"
  using resolveDependencyEntry_nearest_own [OF scopeHeap_chain, of "''c''" "''n''"]
    resolveDependencyEntry_nearest_own [OF scopeHeap_chain, of "''zz''" "''n''"]
  by (simp add: scopeHeap_def deref_def noEntry_def nearestProvider_def provides_def
        objMap_def objectPrototypeNames_def)

text \<open>
  Claim C3. In the hand-made tree the chain of owners from \<open>n\<close> is \<open>n\<close>, \<open>a\<close>, the root
  container, and none of the three provides the name \<open>constructor\<close>: the specification
  asks for the internal error. The resolution of \<open>constructor\<close> from \<open>n\<close> returns instead,
  with the \<open>constructor\<close> member that the dependencies object of \<open>a\<close> inherits from
  \<open>Object.prototype\<close>, which is no entry.
\<close>

theorem resolveDependencyEntry_constructor:
  "ownerChain scopeHeap (Some 3) [3, 1, 0]
   \<and> nearestProvider scopeHeap [3, 1, 0] ''constructor'' = None
   \<and> resolveDependencyEntry scopeHeap 3 ''n'' ''constructor''
         = Some (Inr (Inherited ''constructor''))"
proof -
  have "nearestProvider scopeHeap [3, 1, 0] ''constructor'' = None"
    by code_simp
  moreover have "resolveDependencyEntry scopeHeap 3 ''n'' ''constructor''
                   = Some (Inr (Inherited ''constructor''))"
    by code_simp
  ultimately show ?thesis
    using scopeHeap_chain by simp
qed

section \<open>Merging the root entry's dependencies\<close>

text \<open>
  Claim C8. After \<open>ctx.rootDeps = {...entry.dependencies, ...ctx.rootDeps}\<close> the merged map
  binds every name of the top-level \<open>rootDeps\<close> map to the entry it had there, also when
  the root entry's own nested dependencies bind the same name; the other names keep what
  the root entry's nested dependencies give them. (Root-level is read as: of the run's
  top-level \<open>rootDeps\<close> map.)
\<close>

theorem mergeRootDeps_precedence:
  assumes "distinct (map fst (rootDeps ctx))"
    and "wfObj (dependencies (deref h entry))"
  shows "map_of (rootDeps (mergeRootDeps ctx h entry)) n =
           (case map_of (rootDeps ctx) n of
              Some e \<Rightarrow> Some e
            | None \<Rightarrow> objMap (dependencies (deref h entry)) n)"
proof -
  have "map_of (rootDeps (mergeRootDeps ctx h entry)) =
          objMap (dependencies (deref h entry)) ++ map_of (rootDeps ctx)"
    using assms
    by (simp add: mergeRootDeps_def map_of_objSpread wfObj_def)
       (simp add: objMap_def)
  then show ?thesis
    by (simp add: map_add_def)
qed

text \<open>In the example, \<open>c\<close> is bound in both maps: the merged map takes the hoisted copy
  (entry 3) from \<open>rootDeps\<close>, not the root entry's nested copy (entry 4).\<close>

theorem mergeRootDeps_precedence_witness:
  "\<exists>c h. demoBuild = Some (Inr (0, c, h))
      \<and> objMap (dependencies (deref h 0)) ''c'' = Some 4
      \<and> map_of (rootDeps c) ''c'' = Some 3
      \<and> map_of (rootDeps (mergeRootDeps c h 0)) ''c'' = Some 3
      \<and> map_of (rootDeps (mergeRootDeps c h 0)) ''a'' = Some 1"
proof -
  obtain c h where b: "demoBuild = Some (Inr (0, c, h))"
    and r: "rootDeps c = [(''c'', 3), (''d'', 2)]"
    and d: "dependencies (deref h 0) = Some [(''a'', 1), (''c'', 4), (''b'', 5)]"
    by (rule demoBuild_obtain)
  have h1: "distinct (map fst (rootDeps c))" by (simp add: r)
  have h2: "wfObj (dependencies (deref h 0))" by (simp add: d wfObj_def)
  have "map_of (rootDeps (mergeRootDeps c h 0)) ''c'' = Some 3"
    using mergeRootDeps_precedence [OF h1 h2, of "''c''"] by (simp add: r)
  moreover have "map_of (rootDeps (mergeRootDeps c h 0)) ''a'' = Some 1"
    using mergeRootDeps_precedence [OF h1 h2, of "''a''"] by (simp add: r d objMap_def)
  moreover have "objMap (dependencies (deref h 0)) ''c'' = Some 4"
    by (simp add: d objMap_def)
  moreover have "map_of (rootDeps c) ''c'' = Some 3"
    by (simp add: r)
  ultimately show ?thesis
    using b by blast
qed

section \<open>Post-order traversal\<close>

lemma postOrder_Nil: "postOrder []"
  by (simp add: postOrder_def)

lemma postOrder_append:
  assumes a: "postOrder a" and b: "postOrder b"
  shows "postOrder (a @ b)"
  unfolding postOrder_def
proof (intro allI impI ballI)
  fix i c
  assume i: "i < length (a @ b)" and c: "c \<in> set (snd ((a @ b) ! i))"
  show "\<exists>j<i. fst ((a @ b) ! j) = c"
  proof (cases "i < length a")
    case True
    with c have "c \<in> set (snd (a ! i))" by (simp add: nth_append)
    with a True obtain j where "j < i" "fst (a ! j) = c"
      unfolding postOrder_def by blast
    with True show ?thesis by (auto simp: nth_append intro!: exI [of _ j])
  next
    case False
    with i have i': "i - length a < length b" by simp
    from False c have "c \<in> set (snd (b ! (i - length a)))" by (simp add: nth_append)
    with b i' obtain j where j: "j < i - length a" "fst (b ! j) = c"
      unfolding postOrder_def by blast
    then have "length a + j < i" "fst ((a @ b) ! (length a + j)) = c"
      by (simp_all add: nth_append)
    then show ?thesis by blast
  qed
qed

lemma postOrder_snoc:
  assumes a: "postOrder a" and cs: "set cs \<subseteq> fst ` set a"
  shows "postOrder (a @ [(v, cs)])"
  unfolding postOrder_def
proof (intro allI impI ballI)
  fix i c
  assume i: "i < length (a @ [(v, cs)])" and c: "c \<in> set (snd ((a @ [(v, cs)]) ! i))"
  show "\<exists>j<i. fst ((a @ [(v, cs)]) ! j) = c"
  proof (cases "i < length a")
    case True
    with c have "c \<in> set (snd (a ! i))" by (simp add: nth_append)
    with a True obtain j where "j < i" "fst (a ! j) = c"
      unfolding postOrder_def by blast
    with True show ?thesis by (auto simp: nth_append intro!: exI [of _ j])
  next
    case False
    with i have ia: "i = length a" by simp
    with c have "c \<in> set cs" by simp
    with cs obtain x where "x \<in> set a" "fst x = c" by auto
    then obtain j where "j < length a" "a ! j = x" by (auto simp: in_set_conv_nth)
    with \<open>fst x = c\<close> ia show ?thesis by (auto simp: nth_append intro!: exI [of _ j])
  qed
qed

lemma walkEntries_traced_loop_postOrder:
  assumes rec: "\<And>d s tr s' tr'. rec d (s, tr) = Some (s', tr') \<Longrightarrow>
                  \<exists>new. tr' = tr @ new \<and> postOrder new \<and> covers d new"
  shows "walkEntries_traced_loop rec walker vs (s, tr) = Some (s', tr') \<Longrightarrow>
         \<exists>new. tr' = tr @ new \<and> postOrder new \<and> set vs \<subseteq> fst ` set new"
proof (induction vs arbitrary: s tr)
  case Nil
  then show ?case by (simp add: postOrder_Nil)
next
  case (Cons v rest)
  let ?d = "dependencies (deref (fst s) v)"
  let ?cs = "childrenOf (fst s) v"
  from Cons.prems obtain s1 tr1 where
    r: "rec ?d (s, tr) = Some (s1, tr1)"
    and l: "walkEntries_traced_loop rec walker rest (walker v s1, tr1 @ [(v, ?cs)]) = Some (s', tr')"
    by (auto split: option.splits)
  from rec [OF r] obtain n1 where n1: "tr1 = tr @ n1" "postOrder n1" "covers ?d n1" by blast
  have "set ?cs \<subseteq> fst ` set n1"
    using n1(3) by (auto simp: covers_def childrenOf_def split: option.splits)
  with n1(2) have p1: "postOrder (n1 @ [(v, ?cs)])" by (rule postOrder_snoc)
  from Cons.IH [OF l] obtain n2 where
    n2: "tr' = (tr1 @ [(v, ?cs)]) @ n2" "postOrder n2" "set rest \<subseteq> fst ` set n2" by blast
  have "tr' = tr @ ((n1 @ [(v, ?cs)]) @ n2)" using n1(1) n2(1) by simp
  moreover have "postOrder ((n1 @ [(v, ?cs)]) @ n2)" using p1 n2(2) by (rule postOrder_append)
  moreover have "set (v # rest) \<subseteq> fst ` set ((n1 @ [(v, ?cs)]) @ n2)"
    using n2(3) by auto
  ultimately show ?case by blast
qed

lemma walkEntries_traced_postOrder:
  "walkEntries_traced fuel walker deps (s, tr) = Some (s', tr') \<Longrightarrow>
   \<exists>new. tr' = tr @ new \<and> postOrder new \<and> covers deps new"
proof (induction fuel arbitrary: deps s tr s' tr')
  case 0
  then show ?case by simp
next
  case (Suc fuel)
  show ?case
  proof (cases deps)
    case None
    with Suc.prems show ?thesis by (simp add: postOrder_Nil covers_def)
  next
    case (Some ds)
    with Suc.prems have
      "walkEntries_traced_loop (walkEntries_traced fuel walker) walker (objValues ds) (s, tr)
         = Some (s', tr')" by simp
    from walkEntries_traced_loop_postOrder [OF Suc.IH this]
    show ?thesis by (simp add: covers_def Some)
  qed
qed

lemma walkEntries_traced_loop_erase:
  assumes rec: "\<And>d st. map_option fst (rect d st) = rec d (fst st)"
  shows "map_option fst (walkEntries_traced_loop rect walker vs st)
           = walkEntries_loop rec walker vs (fst st)"
proof (induction vs arbitrary: st)
  case Nil
  show ?case by simp
next
  case (Cons v rest)
  obtain s tr where st: "st = (s, tr)" by (cases st)
  show ?case
  proof (cases "rect (dependencies (deref (fst s) v)) (s, tr)")
    case None
    with rec [of "dependencies (deref (fst s) v)" "(s, tr)"] show ?thesis
      by (simp add: st)
  next
    case (Some r)
    obtain s1 tr1 where r: "r = (s1, tr1)" by (cases r)
    from Some rec [of "dependencies (deref (fst s) v)" "(s, tr)"]
    have "rec (dependencies (deref (fst s) v)) s = Some s1" by (simp add: r)
    with Some show ?thesis
      using Cons.IH [of "(walker v s1, tr1 @ [(v, childrenOf (fst s) v)])"]
      by (simp add: st r)
  qed
qed

lemma walkEntries_traced_erase:
  "map_option fst (walkEntries_traced fuel walker deps st) = walkEntries fuel walker deps (fst st)"
proof (induction fuel arbitrary: deps st)
  case 0
  show ?case by simp
next
  case (Suc fuel)
  show ?case
    by (cases deps)
       (simp_all add: walkEntries_traced_loop_erase
          [of "walkEntries_traced fuel walker" "walkEntries fuel walker", OF Suc.IH])
qed

text \<open>
  Claim C9. \<open>walkEntries\<close> is a post-order traversal, for every heap, dependencies
  object and visitor: the traced walk ends in the same state as \<open>walkEntries\<close> (and
  returns exactly when it does), and in the record of its visits every entry that the walk
  read in the dependencies object of a visited entry has a visit at a strictly earlier
  position. Every value of the object walked is visited.
\<close>

theorem walkEntries_postOrder:
  "map_option fst (walkEntries_traced fuel walker deps (s, [])) = walkEntries fuel walker deps s
   \<and> (\<forall>s' tr. walkEntries_traced fuel walker deps (s, []) = Some (s', tr) \<longrightarrow>
         postOrder tr \<and> (\<forall>ds. deps = Some ds \<longrightarrow> set (objValues ds) \<subseteq> fst ` set tr))"
proof (intro conjI allI impI)
  show "map_option fst (walkEntries_traced fuel walker deps (s, [])) = walkEntries fuel walker deps s"
    using walkEntries_traced_erase [of fuel walker deps "(s, [])"] by simp
next
  fix s' tr ds
  assume r: "walkEntries_traced fuel walker deps (s, []) = Some (s', tr)"
  from walkEntries_traced_postOrder [OF r] show "postOrder tr" by simp
  assume "deps = Some ds"
  with walkEntries_traced_postOrder [OF r] show "set (objValues ds) \<subseteq> fst ` set tr"
    by (simp add: covers_def)
qed

lemma scopeHeap_walk: "walkEntries_traced 3 markDev (dependencies (deref scopeHeap 0)) ((scopeHeap, ()), [])
   = Some (((map (\<lambda>e. e\<lparr>dev := Some True\<rparr>) scopeHeap)[0 := deref scopeHeap 0], ()),
           [(3, []), (1, [3]), (2, [])])"
  by code_simp


text \<open>On the hand-made tree: \<open>n\<close> (3) is visited before \<open>a\<close> (1), which holds it.\<close>

theorem walkEntries_postOrder_witness:
  "(\<exists>s'. walkEntries_traced 3 markDev (dependencies (deref scopeHeap 0)) ((scopeHeap, ()), [])
           = Some (s', [(3, []), (1, [3]), (2, [])]))
   \<and> postOrder [(3, []), (1, [3]), (2, [])]"
  using scopeHeap_walk
    walkEntries_postOrder [of 3 markDev "dependencies (deref scopeHeap 0)" "(scopeHeap, ())"]
  by simp

section \<open>The cleanup pass\<close>

lemma stripEmpty_fst_length [simp]: "length (fst (stripEmpty v s)) = length (fst s)"
  by (simp add: stripEmpty_def Let_def)

lemma deref_stripEmpty:
  "deref (fst (stripEmpty v s)) a =
     (if a = v \<and> v < length (fst s)
      then (let e = deref (fst s) v;
                e1 = (if dependencies e = Some [] then e\<lparr>dependencies := None\<rparr> else e)
            in (if requires e1 = Some [] then e1\<lparr>requires := None\<rparr> else e1))
      else deref (fst s) a)"
  by (auto simp: stripEmpty_def deref_def Let_def)

lemma childrenOf_stripEmpty [simp]: "childrenOf (fst (stripEmpty v s)) a = childrenOf (fst s) a"
  by (auto simp: childrenOf_def deref_stripEmpty Let_def objValues_def)

lemma clean_stripEmpty_other: "clean (deref (fst s) a) \<Longrightarrow> clean (deref (fst (stripEmpty v s)) a)"
  by (auto simp: clean_def deref_stripEmpty Let_def)

lemma clean_stripEmpty_self: "clean (deref (fst (stripEmpty v s)) v)"
proof (cases "v < length (fst s)")
  case True
  then show ?thesis by (auto simp: clean_def deref_stripEmpty Let_def)
next
  case False
  then have "deref (fst (stripEmpty v s)) v = noEntry" by (simp add: deref_def)
  then show ?thesis by (simp add: clean_def noEntry_def)
qed

lemma inTree_cong:
  assumes "\<And>a. childrenOf h' a = childrenOf h a"
  shows "inTree h' vs a \<longleftrightarrow> inTree h vs a"
proof
  show "inTree h' vs a \<Longrightarrow> inTree h vs a"
    by (induction rule: inTree.induct) (auto simp: assms intro: inTree.intros)
  show "inTree h vs a \<Longrightarrow> inTree h' vs a"
    by (induction rule: inTree.induct) (auto simp: assms [symmetric] intro: inTree.intros)
qed

lemma inTree_Cons:
  "inTree h (v # rest) a \<longleftrightarrow> a = v \<or> inTree h (childrenOf h v) a \<or> inTree h rest a"
proof
  assume "inTree h (v # rest) a"
  then show "a = v \<or> inTree h (childrenOf h v) a \<or> inTree h rest a"
    by (cases rule: inTree.cases) (auto intro: inTree.intros)
next
  assume "a = v \<or> inTree h (childrenOf h v) a \<or> inTree h rest a"
  then show "inTree h (v # rest) a"
  proof (elim disjE)
    assume "inTree h rest a"
    then show ?thesis by (cases rule: inTree.cases) (auto intro: inTree.intros)
  qed (auto intro: inTree.intros)
qed

lemma inTree_Nil [simp]: "\<not> inTree h [] a"
  by (auto elim: inTree.cases)

lemma walkEntries_loop_stripEmpty:
  assumes rec: "\<And>d h u h' u'. rec d (h, u) = Some (h', u') \<Longrightarrow>
                  stripped h (case d of None \<Rightarrow> [] | Some ds \<Rightarrow> objValues ds) h'"
  shows "walkEntries_loop rec stripEmpty vs (h, u) = Some (h', u') \<Longrightarrow> stripped h vs h'"
proof (induction vs arbitrary: h u)
  case Nil
  then show ?case by (simp add: stripped_def)
next
  case (Cons v rest)
  from Cons.prems obtain h1 u1 where
    r: "rec (dependencies (deref h v)) (h, u) = Some (h1, u1)"
    and l: "walkEntries_loop rec stripEmpty rest (stripEmpty v (h1, u1)) = Some (h', u')"
    by (auto split: option.splits)
  let ?h2 = "fst (stripEmpty v (h1, u1))"
  from rec [OF r] have s1: "stripped h (childrenOf h v) h1"
    by (simp add: childrenOf_def)
  have l': "walkEntries_loop rec stripEmpty rest (?h2, u1) = Some (h', u')"
    using l by (simp add: stripEmpty_def Let_def)
  from Cons.IH [OF l'] have s2: "stripped ?h2 rest h'" .
  have ch2: "\<And>a. childrenOf ?h2 a = childrenOf h a"
    using s1 by (simp add: stripped_def)
  have t2: "\<And>a. inTree ?h2 rest a \<longleftrightarrow> inTree h rest a"
    by (rule inTree_cong) (rule ch2)
  have c2: "\<And>a. clean (deref ?h2 a) \<Longrightarrow> clean (deref h' a)"
    using s2 by (simp add: stripped_def)
  have c1: "\<And>a. clean (deref h1 a) \<Longrightarrow> clean (deref ?h2 a)"
    using clean_stripEmpty_other [of "(h1, u1)"] by simp
  show ?case
    unfolding stripped_def
  proof (intro conjI allI impI)
    fix a
    show "childrenOf h' a = childrenOf h a"
      using s2 ch2 by (simp add: stripped_def)
    show "clean (deref h a) \<Longrightarrow> clean (deref h' a)"
      using s1 c1 c2 by (simp add: stripped_def)
    assume "inTree h (v # rest) a"
    then consider "a = v" | "inTree h (childrenOf h v) a" | "inTree h rest a"
      by (auto simp: inTree_Cons)
    then show "clean (deref h' a)"
    proof cases
      case 1
      then show ?thesis using c2 clean_stripEmpty_self [of v "(h1, u1)"] by simp
    next
      case 2
      then show ?thesis using s1 c1 c2 by (simp add: stripped_def)
    next
      case 3
      then show ?thesis using s2 t2 by (simp add: stripped_def)
    qed
  qed
qed

lemma walkEntries_stripEmpty:
  "walkEntries fuel stripEmpty deps (h, u) = Some (h', u') \<Longrightarrow>
   stripped h (case deps of None \<Rightarrow> [] | Some ds \<Rightarrow> objValues ds) h'"
proof (induction fuel arbitrary: deps h u h' u')
  case 0
  then show ?case by simp
next
  case (Suc fuel)
  show ?case
  proof (cases deps)
    case None
    with Suc.prems show ?thesis by (simp add: stripped_def)
  next
    case (Some ds)
    with Suc.prems have
      "walkEntries_loop (walkEntries fuel stripEmpty) stripEmpty (objValues ds) (h, u) = Some (h', u')"
      by simp
    from walkEntries_loop_stripEmpty [of "walkEntries fuel stripEmpty", OF Suc.IH this]
    show ?thesis by (simp add: Some)
  qed
qed

text \<open>
  Claim C7. After the cleanup pass (\<open>walkEntries\<close> with the stripping visitor over the
  merged \<open>rootDeps\<close>) has returned, no entry of the tree below \<open>rootDeps\<close> in the
  resulting heap has a \<open>requires\<close> map or a \<open>dependencies\<close> map that is present and
  empty.
\<close>

theorem cleanup_no_empty_maps:
  assumes "walkEntries fuel stripEmpty (Some rootDependencies) (h, ()) = Some (h', u)"
    and "inTree h' (objValues rootDependencies) a"
  shows "requires (deref h' a) \<noteq> Some [] \<and> dependencies (deref h' a) \<noteq> Some []"
proof -
  from walkEntries_stripEmpty [OF assms(1)]
  have s: "stripped h (objValues rootDependencies) h'" by simp
  then have "inTree h (objValues rootDependencies) a"
    using assms(2) inTree_cong [of h' h] by (simp add: stripped_def)
  with s have "clean (deref h' a)" by (simp add: stripped_def)
  then show ?thesis by (simp add: clean_def)
qed


lemma demoCleanup_facts:
  "case demoBuild of
     Some (Inr (e, c, h)) \<Rightarrow>
       (case walkEntries 5 stripEmpty (Some (rootDeps (mergeRootDeps c h e))) (h, ()) of
          Some (h', _) \<Rightarrow>
            objValues (rootDeps (mergeRootDeps c h e)) = [1, 3, 5, 2] \<and> childrenOf h' 5 = [6]
        | None \<Rightarrow> False)
   | _ \<Rightarrow> False"
  by code_simp

text \<open>In the example, \<open>e\<close> (entry 6) is nested in \<open>b\<close> (entry 5) and is left without a
  \<open>dependencies\<close> map.\<close>

theorem cleanup_no_empty_maps_witness:
  "\<exists>c h h'. demoBuild = Some (Inr (0, c, h))
      \<and> walkEntries 5 stripEmpty (Some (rootDeps (mergeRootDeps c h 0))) (h, ()) = Some (h', ())
      \<and> inTree h' (objValues (rootDeps (mergeRootDeps c h 0))) 6
      \<and> requires (deref h' 6) \<noteq> Some [] \<and> dependencies (deref h' 6) \<noteq> Some []"
proof -
  obtain c h where b: "demoBuild = Some (Inr (0, c, h))"
    by (rule demoBuild_obtain)
  from demoCleanup_facts have
    f: "case walkEntries 5 stripEmpty (Some (rootDeps (mergeRootDeps c h 0))) (h, ()) of
          Some (h', _) \<Rightarrow>
            objValues (rootDeps (mergeRootDeps c h 0)) = [1, 3, 5, 2] \<and> childrenOf h' 5 = [6]
        | None \<Rightarrow> False"
    by (simp add: b)
  then obtain h' where
    w: "walkEntries 5 stripEmpty (Some (rootDeps (mergeRootDeps c h 0))) (h, ()) = Some (h', ())"
    by (cases "walkEntries 5 stripEmpty (Some (rootDeps (mergeRootDeps c h 0))) (h, ())") auto
  from f have v: "objValues (rootDeps (mergeRootDeps c h 0)) = [1, 3, 5, 2]"
    and ch: "childrenOf h' 5 = [6]"
    by (simp_all add: w)
  have "inTree h' (childrenOf h' 5) 6"
    by (rule inTree_top) (simp add: ch)
  then have t: "inTree h' (objValues (rootDeps (mergeRootDeps c h 0))) 6"
    by (rule inTree_nested [rotated]) (simp add: v)
  from cleanup_no_empty_maps [OF w t] b w t show ?thesis by blast
qed

section \<open>One entry per directory\<close>

lemma inHeap_update: "inHeap h ds \<Longrightarrow> a < length h \<Longrightarrow> inHeap h (objSet n a ds)"
  by (auto simp: inHeap_def dest!: set_objSet)

lemma edgesInHeap_update:
  "edgesInHeap h m \<Longrightarrow> edgeOk h n r \<Longrightarrow> edgesInHeap h (AList.update n r m)"
  by (auto simp: edgesInHeap_def dest!: set_AList_update)

lemma edgesInHeap_Nil [simp]: "edgesInHeap h []"
  by (simp add: edgesInHeap_def)

lemma edgeOk_mono: "edgeOk h n r \<Longrightarrow> length h \<le> length h' \<Longrightarrow> edgeOk h' n r"
  by (auto simp: edgeOk_def split: ref.splits)

lemma edgesInHeap_mono: "edgesInHeap h m \<Longrightarrow> length h \<le> length h' \<Longrightarrow> edgesInHeap h' m"
  by (fastforce simp: edgesInHeap_def intro: edgeOk_mono)

lemma getProp_edgeOk: "inHeap h ds \<Longrightarrow> getProp ds n = Some r \<Longrightarrow> edgeOk h n r"
  by (auto simp: getProp_def edgeOk_def inHeap_def split: option.splits if_splits
           dest!: map_of_SomeD)

lemma inHeap_Nil [simp]: "inHeap h []"
  by (simp add: inHeap_def)

lemma inHeap_mono: "inHeap h ds \<Longrightarrow> length h \<le> length h' \<Longrightarrow> inHeap h' ds"
  by (fastforce simp: inHeap_def)

lemma inHeap_map_of: "inHeap h ds \<Longrightarrow> map_of ds n = Some a \<Longrightarrow> a < length h"
  by (auto simp: inHeap_def dest!: map_of_SomeD)

lemma length_setDependencies [simp]: "length (setDependencies h a ds) = length h"
  by (simp add: setDependencies_def)

lemma dependencies_setDependencies:
  "dependencies (deref (setDependencies h a ds) e) =
     (if e = a \<and> a < length h then ds else dependencies (deref h e))"
  by (auto simp: setDependencies_def deref_def)

lemma inHeap_setDependencies [simp]: "inHeap (setDependencies h a ds) m = inHeap h m"
  by (simp add: inHeap_def)

lemma edgeOk_setDependencies [simp]: "edgeOk (setDependencies h a ds) n r = edgeOk h n r"
  by (simp add: edgeOk_def split: ref.splits)

lemma edgesInHeap_setDependencies [simp]:
  "edgesInHeap (setDependencies h a ds) m = edgesInHeap h m"
  by (simp add: edgesInHeap_def)

lemma linksInHeap_setDependencies:
  assumes "linksInHeap ctx h" and "inHeap h ds"
  shows "linksInHeap ctx (setDependencies h a (Some ds))"
  unfolding linksInHeap_def
proof (intro conjI allI impI)
  show "inHeap (setDependencies h a (Some ds)) (rootDeps ctx)"
    using assms(1) by (simp add: linksInHeap_def)
next
  fix e m assume "dependencies (deref (setDependencies h a (Some ds)) e) = Some m"
  then have "m = ds \<or> dependencies (deref h e) = Some m"
    by (auto simp: dependencies_setDependencies split: if_splits)
  then show "inHeap (setDependencies h a (Some ds)) m"
    using assms by (auto simp: linksInHeap_def)
next
  fix e m assume "resolves ctx e = Some m"
  then show "edgesInHeap (setDependencies h a (Some ds)) m"
    using assms(1) by (auto simp: linksInHeap_def)
qed

lemma oneEntryPerDir_cong:
  "moduleDirs ctx' = moduleDirs ctx \<Longrightarrow> visited ctx' = visited ctx \<Longrightarrow> length h' = length h \<Longrightarrow>
   oneEntryPerDir ctx' h' = oneEntryPerDir ctx h"
  by (simp add: oneEntryPerDir_def)

lemma buildInv_getDependencyTarget:
  assumes inv: "buildInv ctx h" and g: "getDependencyTarget ctx h md = (t, h1)"
  shows "buildInv ctx h1 \<and> length h1 = length h"
proof -
  from g have "h1 = h \<or> (\<exists>x. h1 = setDependencies h x (Some []))"
    by (auto simp: getDependencyTarget_def split: option.splits if_splits)
  then show ?thesis
  proof
    assume "h1 = h" with inv show ?thesis by simp
  next
    assume "\<exists>x. h1 = setDependencies h x (Some [])"
    then obtain x where h1: "h1 = setDependencies h x (Some [])" ..
    have "linksInHeap ctx h1"
      unfolding h1 using inv by (intro linksInHeap_setDependencies) (simp_all add: buildInv_def)
    moreover have "oneEntryPerDir ctx h1"
      using inv oneEntryPerDir_cong [of ctx ctx h1 h] by (simp add: h1 buildInv_def)
    ultimately show ?thesis by (simp add: buildInv_def h1)
  qed
qed

lemma inHeap_targetDeps: "linksInHeap ctx h \<Longrightarrow> inHeap h (targetDeps ctx h t)"
  by (auto simp: targetDeps_def linksInHeap_def split: target.splits option.splits)

lemma linksInHeap_rootDeps_update:
  assumes "linksInHeap ctx h" and "inHeap h ds"
  shows "linksInHeap (ctx\<lparr>rootDeps := ds\<rparr>) h"
  using assms by (simp add: linksInHeap_def)

lemma linksInHeap_resolves_update:
  assumes "linksInHeap ctx h" and "edgesInHeap h m"
  shows "linksInHeap (ctx\<lparr>resolves := (resolves ctx)(e \<mapsto> m)\<rparr>) h"
  using assms by (simp add: linksInHeap_def)

lemma buildInv_targetAssign:
  assumes inv: "buildInv ctx h" and a: "a < length h"
    and ta: "targetAssign ctx h t n a = (ctx', h')"
  shows "buildInv ctx' h' \<and> length h' = length h \<and> visited ctx' = visited ctx"
proof (cases t)
  case RootDeps
  with ta have c: "ctx' = ctx\<lparr>rootDeps := objSet n a (rootDeps ctx)\<rparr>" and h: "h' = h"
    by (simp_all add: targetAssign_def)
  have "inHeap h (objSet n a (rootDeps ctx))"
    using inv a by (intro inHeap_update) (simp_all add: buildInv_def linksInHeap_def)
  then have "linksInHeap ctx' h'"
    unfolding c h using inv by (intro linksInHeap_rootDeps_update) (simp_all add: buildInv_def)
  moreover have "oneEntryPerDir ctx' h'"
    using inv oneEntryPerDir_cong [of ctx' ctx h' h] by (simp add: c h buildInv_def)
  ultimately show ?thesis by (simp add: buildInv_def c h)
next
  case (EntryDepsOf x)
  with ta have c: "ctx' = ctx"
    and h: "h' = setDependencies h x (Some (objSet n a (targetDeps ctx h t)))"
    by (auto simp: targetAssign_def)
  have "inHeap h (objSet n a (targetDeps ctx h t))"
    using inv a by (intro inHeap_update inHeap_targetDeps) (simp_all add: buildInv_def)
  then have "linksInHeap ctx' h'"
    unfolding c h using inv by (intro linksInHeap_setDependencies) (simp_all add: buildInv_def)
  moreover have "oneEntryPerDir ctx' h'"
    using inv oneEntryPerDir_cong [of ctx' ctx h' h] by (simp add: c h buildInv_def)
  ultimately show ?thesis by (simp add: buildInv_def c h)
qed

lemma buildInv_entryResolvesSet:
  assumes inv: "buildInv ctx h" and a: "edgeOk h n a"
  shows "buildInv (entryResolvesSet ctx entry n a) h"
proof -
  let ?m = "AList.update n a (case resolves ctx entry of None \<Rightarrow> [] | Some m \<Rightarrow> m)"
  have "edgesInHeap h (case resolves ctx entry of None \<Rightarrow> [] | Some m \<Rightarrow> m)"
    using inv by (auto simp: buildInv_def linksInHeap_def split: option.splits)
  then have "edgesInHeap h ?m" using a by (rule edgesInHeap_update)
  then have "linksInHeap (entryResolvesSet ctx entry n a) h"
    unfolding entryResolvesSet_def using inv
    by (intro linksInHeap_resolves_update) (simp_all add: buildInv_def)
  moreover have "oneEntryPerDir (entryResolvesSet ctx entry n a) h"
    using inv oneEntryPerDir_cong [of "entryResolvesSet ctx entry n a" ctx h h]
    by (simp add: entryResolvesSet_def buildInv_def)
  ultimately show ?thesis by (simp add: buildInv_def)
qed

lemma visited_entryResolvesSet [simp]: "visited (entryResolvesSet ctx entry n a) = visited ctx"
  by (simp add: entryResolvesSet_def)

lemma deref_append:
  "deref (h @ [e]) x = (if x = length h then e else deref h x)"
  by (auto simp: deref_def nth_append)

lemma linksInHeap_new:
  assumes links: "linksInHeap ctx h"
  shows "linksInHeap (ctx\<lparr>visited := vs, moduleDirs := md,
                       resolves := (resolves ctx)(length h \<mapsto> [])\<rparr>) (h @ [newEntry man req])"
  unfolding linksInHeap_def
proof (intro conjI allI impI)
  let ?ctx = "ctx\<lparr>visited := vs, moduleDirs := md, resolves := (resolves ctx)(length h \<mapsto> [])\<rparr>"
  let ?h = "h @ [newEntry man req]"
  have len: "length h \<le> length ?h" by simp
  show "inHeap ?h (rootDeps ?ctx)"
    using links inHeap_mono [OF _ len] by (simp add: linksInHeap_def)
  fix e m
  { assume "dependencies (deref ?h e) = Some m"
    then have "m = [] \<or> dependencies (deref h e) = Some m"
      by (auto simp: deref_append newEntry_def split: if_splits)
    then show "inHeap ?h m"
      using links inHeap_mono [OF _ len] by (auto simp: linksInHeap_def) }
  { assume "resolves ?ctx e = Some m"
    then have "m = [] \<or> resolves ctx e = Some m"
      by (auto split: if_splits)
    then show "edgesInHeap ?h m"
      using links edgesInHeap_mono [OF _ len] by (auto simp: linksInHeap_def) }
qed

lemma buildInv_new:
  assumes inv: "buildInv ctx h" and d: "d \<notin> visited ctx"
  shows "buildInv (ctx\<lparr>visited := insert d (visited ctx),
                       moduleDirs := (moduleDirs ctx)(d \<mapsto> length h),
                       resolves := (resolves ctx)(length h \<mapsto> [])\<rparr>)
                 (h @ [newEntry man req])"
proof -
  from inv have dom: "dom (moduleDirs ctx) = visited ctx"
    and inj: "inj_on (moduleDirs ctx) (visited ctx)"
    and ran: "ran (moduleDirs ctx) = {a. a < length h}"
    and links: "linksInHeap ctx h"
    by (simp_all add: buildInv_def oneEntryPerDir_def)
  from d dom have dn: "moduleDirs ctx d = None" by auto
  have fresh: "moduleDirs ctx x \<noteq> Some (length h)" for x
  proof
    assume "moduleDirs ctx x = Some (length h)"
    then have "length h \<in> ran (moduleDirs ctx)" by (auto simp: ran_def)
    with ran show False by simp
  qed
  have "ran ((moduleDirs ctx)(d \<mapsto> length h)) = insert (length h) (ran (moduleDirs ctx))"
    using dn by simp
  then have ran': "ran ((moduleDirs ctx)(d \<mapsto> length h)) = {a. a < length (h @ [newEntry man req])}"
    using ran by auto
  have inj': "inj_on ((moduleDirs ctx)(d \<mapsto> length h)) (insert d (visited ctx))"
    unfolding inj_on_def
  proof (intro ballI impI)
    fix x y
    assume x: "x \<in> insert d (visited ctx)" and y: "y \<in> insert d (visited ctx)"
      and eq: "((moduleDirs ctx)(d \<mapsto> length h)) x = ((moduleDirs ctx)(d \<mapsto> length h)) y"
    show "x = y"
    proof (cases "x = d")
      case True
      with eq fresh [of y] show ?thesis by (auto split: if_splits)
    next
      case False
      with eq fresh [of x] have yd: "y \<noteq> d" by (auto split: if_splits)
      with False eq have "moduleDirs ctx x = moduleDirs ctx y" by simp
      with inj x y False yd show ?thesis by (auto simp: inj_on_def)
    qed
  qed
  have dom': "dom ((moduleDirs ctx)(d \<mapsto> length h)) = insert d (visited ctx)"
    using dom by simp
  show ?thesis
    unfolding buildInv_def oneEntryPerDir_def
    using dom' inj' ran' linksInHeap_new [OF links] by simp
qed

lemma buildLockfileEntry_loop_inv:
  assumes rec: "\<And>ctx h d b e ctx' h'.
      buildInv ctx h \<Longrightarrow> d \<notin> visited ctx \<Longrightarrow> rec ctx h d b = Some (Inr (e, ctx', h')) \<Longrightarrow>
      buildInv ctx' h' \<and> e < length h' \<and> length h \<le> length h'"
  shows "buildInv ctx h \<Longrightarrow>
         buildLockfileEntry_loop rec w ctx h d entry names = Some (Inr (ctx', h')) \<Longrightarrow>
         buildInv ctx' h' \<and> length h \<le> length h'"
proof (induction names arbitrary: ctx h)
  case Nil
  then show ?case by simp
next
  case (Cons depName rest)
  from Cons.prems(2) obtain resolvedDir where
    loc: "resolvePackageLocation w d depName = Inr resolvedDir"
    by (cases "resolvePackageLocation w d depName") auto
  show ?case
  proof (cases "resolvedDir \<in> visited ctx")
    case True
    with Cons.prems(2) loc have
      "buildLockfileEntry_loop rec w ctx h d entry rest = Some (Inr (ctx', h'))" by simp
    from Cons.IH [OF Cons.prems(1) this] show ?thesis .
  next
    case False
    obtain depsObject h1 where
      tg: "(case getModulesDir resolvedDir of None \<Rightarrow> (RootDeps, h)
            | Some modulesDir \<Rightarrow> getDependencyTarget ctx h modulesDir) = (depsObject, h1)"
      by (cases "case getModulesDir resolvedDir of None \<Rightarrow> (RootDeps, h)
            | Some modulesDir \<Rightarrow> getDependencyTarget ctx h modulesDir") auto
    have inv1: "buildInv ctx h1" and len1: "length h1 = length h"
      using tg Cons.prems(1) buildInv_getDependencyTarget [of ctx h _ depsObject h1]
      by (auto split: option.splits)
    show ?thesis
    proof (cases "getProp (targetDeps ctx h1 depsObject) depName")
      case None
      with Cons.prems(2) loc False tg obtain depEntry ctx2 h2 ctx3 h3 where
        r: "rec ctx h1 resolvedDir False = Some (Inr (depEntry, ctx2, h2))"
        and ta: "targetAssign ctx2 h2 depsObject depName depEntry = (ctx3, h3)"
        and l: "buildLockfileEntry_loop rec w
                  (entryResolvesSet ctx3 entry depName (EntryRef depEntry)) h3
                  d entry rest = Some (Inr (ctx', h'))"
        by (auto split: option.splits sum.splits prod.splits)
      from rec [OF inv1 False r] have inv2: "buildInv ctx2 h2" and e2: "depEntry < length h2"
        and len2: "length h1 \<le> length h2"
        by simp_all
      from buildInv_targetAssign [OF inv2 e2 ta]
      have inv3: "buildInv ctx3 h3" and len3: "length h3 = length h2" by simp_all
      have "buildInv (entryResolvesSet ctx3 entry depName (EntryRef depEntry)) h3"
        using inv3 e2 len3 by (simp add: buildInv_entryResolvesSet edgeOk_def)
      from Cons.IH [OF this l] show ?thesis using len1 len2 len3 by simp
    next
      case (Some depEntry)
      with Cons.prems(2) loc False tg have
        l: "buildLockfileEntry_loop rec w (entryResolvesSet ctx entry depName depEntry) h1
                  d entry rest = Some (Inr (ctx', h'))"
        by simp
      have "edgeOk h1 depName depEntry"
        using inv1 Some by (auto simp: buildInv_def intro: getProp_edgeOk inHeap_targetDeps)
      then have "buildInv (entryResolvesSet ctx entry depName depEntry) h1"
        using inv1 by (simp add: buildInv_entryResolvesSet)
      from Cons.IH [OF this l] show ?thesis using len1 by simp
    qed
  qed
qed

lemma buildLockfileEntry_inv:
  "buildInv ctx h \<Longrightarrow> d \<notin> visited ctx \<Longrightarrow>
   buildLockfileEntry fuel w ctx h d b = Some (Inr (e, ctx', h')) \<Longrightarrow>
   buildInv ctx' h' \<and> e < length h' \<and> length h \<le> length h'"
proof (induction fuel arbitrary: ctx h d b e ctx' h')
  case 0
  then show ?case by simp
next
  case (Suc fuel)
  from Suc.prems(3) obtain man req where
    m: "read w d = Inr man" and rq: "getRequires w d b = Inr req"
    by (auto split: sum.splits)
  let ?ctx1 = "ctx\<lparr>visited := insert d (visited ctx),
                     moduleDirs := (moduleDirs ctx)(d \<mapsto> length h),
                     resolves := (resolves ctx)(length h \<mapsto> [])\<rparr>"
  let ?h1 = "h @ [newEntry man req]"
  from Suc.prems(3) m rq have
    l: "buildLockfileEntry_loop (buildLockfileEntry fuel w) w ?ctx1 ?h1 d (length h) (objKeys req)
          = Some (Inr (ctx', h'))"
    and e: "e = length h"
    by (auto simp: Let_def split: option.splits sum.splits)
  have inv1: "buildInv ?ctx1 ?h1"
    using Suc.prems(1,2) by (rule buildInv_new)
  have "buildInv ctx' h' \<and> length ?h1 \<le> length h'"
    using buildLockfileEntry_loop_inv [of "buildLockfileEntry fuel w", OF Suc.IH inv1 l] .
  then show ?case by (simp add: e)
qed

section \<open>How requirers are linked\<close>














lemma requirements_setDependencies [simp]:
  "requirements (setDependencies h a ds) x = requirements h x"
  by (cases "a < length h")
     (auto simp: requirements_def setDependencies_def deref_def nth_list_update)



lemma moduleDirs_entryResolvesSet [simp]:
  "moduleDirs (entryResolvesSet ctx entry n r) = moduleDirs ctx"
  by (simp add: entryResolvesSet_def)







section \<open>One entry per directory, and how requirers are linked to it\<close>





section \<open>What the builder leaves unset\<close>

lemma owner_setDependencies [simp]:
  "owner (deref (setDependencies h a ds) e) = owner (deref h e)"
proof (cases "e = a \<and> a < length h")
  case True
  then show ?thesis by (simp add: setDependencies_def deref_def)
next
  case False
  then show ?thesis by (auto simp: setDependencies_def deref_def)
qed

lemma unlinked_getDependencyTarget:
  "unlinked ctx h \<Longrightarrow> getDependencyTarget ctx h md = (t, h1) \<Longrightarrow> unlinked ctx h1"
  by (auto simp: getDependencyTarget_def unlinked_def split: option.splits if_splits)

lemma unlinked_targetAssign:
  "unlinked ctx h \<Longrightarrow> targetAssign ctx h t n a = (ctx', h') \<Longrightarrow> unlinked ctx' h'"
  by (cases t) (auto simp: targetAssign_def unlinked_def)

lemma unlinked_entryResolvesSet:
  "unlinked ctx h \<Longrightarrow> unlinked (entryResolvesSet ctx entry n a) h"
  by (simp add: entryResolvesSet_def unlinked_def)

lemma unlinked_new:
  "unlinked ctx h \<Longrightarrow>
   unlinked (ctx\<lparr>visited := vs, moduleDirs := md, resolves := rs\<rparr>) (h @ [newEntry man req])"
  by (simp add: unlinked_def deref_append newEntry_def)

lemma buildLockfileEntry_loop_unlinked:
  assumes rec: "\<And>ctx h d b e ctx' h'.
      unlinked ctx h \<Longrightarrow> rec ctx h d b = Some (Inr (e, ctx', h')) \<Longrightarrow> unlinked ctx' h'"
  shows "unlinked ctx h \<Longrightarrow>
         buildLockfileEntry_loop rec w ctx h d entry names = Some (Inr (ctx', h')) \<Longrightarrow>
         unlinked ctx' h'"
proof (induction names arbitrary: ctx h)
  case Nil
  then show ?case by simp
next
  case (Cons depName rest)
  from Cons.prems(2) obtain resolvedDir where
    loc: "resolvePackageLocation w d depName = Inr resolvedDir"
    by (cases "resolvePackageLocation w d depName") auto
  show ?case
  proof (cases "resolvedDir \<in> visited ctx")
    case True
    with Cons.prems(2) loc have
      "buildLockfileEntry_loop rec w ctx h d entry rest = Some (Inr (ctx', h'))" by simp
    from Cons.IH [OF Cons.prems(1) this] show ?thesis .
  next
    case False
    obtain depsObject h1 where
      tg: "(case getModulesDir resolvedDir of None \<Rightarrow> (RootDeps, h)
            | Some modulesDir \<Rightarrow> getDependencyTarget ctx h modulesDir) = (depsObject, h1)"
      by (cases "case getModulesDir resolvedDir of None \<Rightarrow> (RootDeps, h)
            | Some modulesDir \<Rightarrow> getDependencyTarget ctx h modulesDir") auto
    have u1: "unlinked ctx h1"
      using tg Cons.prems(1) unlinked_getDependencyTarget [of ctx h _ depsObject h1]
      by (auto split: option.splits)
    show ?thesis
    proof (cases "getProp (targetDeps ctx h1 depsObject) depName")
      case None
      with Cons.prems(2) loc False tg obtain depEntry ctx2 h2 ctx3 h3 where
        r: "rec ctx h1 resolvedDir False = Some (Inr (depEntry, ctx2, h2))"
        and ta: "targetAssign ctx2 h2 depsObject depName depEntry = (ctx3, h3)"
        and l: "buildLockfileEntry_loop rec w
                  (entryResolvesSet ctx3 entry depName (EntryRef depEntry)) h3
                  d entry rest = Some (Inr (ctx', h'))"
        by (auto split: option.splits sum.splits prod.splits)
      from rec [OF u1 r] have "unlinked ctx2 h2" .
      then have "unlinked ctx3 h3" using ta by (rule unlinked_targetAssign)
      then have "unlinked (entryResolvesSet ctx3 entry depName (EntryRef depEntry)) h3"
        by (rule unlinked_entryResolvesSet)
      from Cons.IH [OF this l] show ?thesis .
    next
      case (Some depEntry)
      with Cons.prems(2) loc False tg have
        l: "buildLockfileEntry_loop rec w (entryResolvesSet ctx entry depName depEntry) h1
                  d entry rest = Some (Inr (ctx', h'))"
        by simp
      from u1 have "unlinked (entryResolvesSet ctx entry depName depEntry) h1"
        by (rule unlinked_entryResolvesSet)
      from Cons.IH [OF this l] show ?thesis .
    qed
  qed
qed

lemma buildLockfileEntry_unlinked:
  "unlinked ctx h \<Longrightarrow> buildLockfileEntry fuel w ctx h d b = Some (Inr (e, ctx', h')) \<Longrightarrow>
   unlinked ctx' h'"
proof (induction fuel arbitrary: ctx h d b e ctx' h')
  case 0
  then show ?case by simp
next
  case (Suc fuel)
  from Suc.prems(2) obtain man req where
    m: "read w d = Inr man" and rq: "getRequires w d b = Inr req"
    by (auto split: sum.splits)
  let ?ctx1 = "ctx\<lparr>visited := insert d (visited ctx),
                     moduleDirs := (moduleDirs ctx)(d \<mapsto> length h),
                     resolves := (resolves ctx)(length h \<mapsto> [])\<rparr>"
  let ?h1 = "h @ [newEntry man req]"
  from Suc.prems(2) m rq have
    l: "buildLockfileEntry_loop (buildLockfileEntry fuel w) w ?ctx1 ?h1 d (length h) (objKeys req)
          = Some (Inr (ctx', h'))"
    by (auto simp: Let_def split: option.splits sum.splits)
  have "unlinked ?ctx1 ?h1" using Suc.prems(1) by (rule unlinked_new)
  from buildLockfileEntry_loop_unlinked [of "buildLockfileEntry fuel w", OF Suc.IH this l]
  show ?case .
qed

text \<open>No run of a build sets an owner or a root.\<close>

lemma generation_run_unlinked:
  assumes "buildLockfileEntry fuel w (initialContext d pkgsDir) [] d includeDev
             = Some (Inr (entry, ctx, h))"
  shows "root ctx = None \<and> (\<forall>a. owner (deref h a) = None)"
proof -
  have "unlinked (initialContext d pkgsDir) []"
    by (simp add: unlinked_def initialContext_def deref_def noEntry_def)
  from buildLockfileEntry_unlinked [OF this assms] show ?thesis by (simp add: unlinked_def)
qed

lemma walkNonSubsetDeps_no_root:
  "root ctx = None \<Longrightarrow> walkNonSubsetDeps fuel ctx h names walker u = Some (Inl TypeError)"
  by (simp add: walkNonSubsetDeps_def)

lemma markDevDeps_no_root:
  "root ctx = None \<Longrightarrow> markDevDeps fuel w ctx h \<noteq> Some (Inr h')"
  by (cases "read w (startDir ctx)")
     (simp_all add: markDevDeps_def walkNonSubsetDeps_no_root Let_def)

text \<open>No generation run returns a lockfile: when the build and the cleanup succeed,
  \<open>markDevDeps\<close> throws.\<close>

lemma generateLockfile_no_lockfile:
  "generateLockfile fuel w d pkgsDir \<noteq> Some (Inr (Some r))"
proof
  assume g: "generateLockfile fuel w d pkgsDir = Some (Inr (Some r))"
  then obtain entry ctx1 h1 where
    b: "buildLockfileEntry fuel w (initialContext d pkgsDir) [] d True = Some (Inr (entry, ctx1, h1))"
    by (auto simp: generateLockfile_def split: sum.splits option.splits)
  from generation_run_unlinked [OF b] have "root (mergeRootDeps ctx1 h1 entry) = None"
    by (simp add: mergeRootDeps_def)
  then have "\<And>h h'. markDevDeps fuel w (mergeRootDeps ctx1 h1 entry) h \<noteq> Some (Inr h')"
    by (rule markDevDeps_no_root)
  with g b show False
    by (auto simp: generateLockfile_def Let_def split: sum.splits option.splits prod.splits)
qed

text \<open>
  Claim C1. The claim is that in every generation run the dev pass and the optional pass
  flag the entries outside the respective reachable set. The run never gets there:
  \<open>generateLockfile\<close> builds its context without a \<open>root\<close>, and \<open>walkNonSubsetDeps\<close>,
  called by \<open>markDevDeps\<close>, reads \<open>ctx.root.dependencies\<close>. On the example package the run
  ends with the \<open>TypeError\<close> and no entry is flagged.
\<close>

theorem generateLockfile_demo_TypeError:
  "generateLockfile 5 demoWorld demoRoot demoPackages = Some (Inl TypeError)"
  by code_simp

text \<open>
  Claim C2. The claim is that every entry the builder inserts into a dependencies map has
  its \<open>owner\<close> set to the container at construction. The builder never assigns \<open>owner\<close>:
  after the example build, \<open>a\<close>, \<open>c\<close> and \<open>b\<close> (entries 1, 4 and 5) sit in the root
  entry's dependencies map and \<open>c\<close>, \<open>d\<close> (entries 3 and 2) in \<open>rootDeps\<close>, and no entry
  of the heap has an owner.
\<close>

theorem buildLockfileEntry_demo_owner_unset:
  "map_option (map_sum id (\<lambda>(e, c, h). (dependencies (deref h e), rootDeps c, map owner h))) demoBuild
     = Some (Inr (Some [(''a'', 1), (''c'', 4), (''b'', 5)], [(''c'', 3), (''d'', 2)],
                  [None, None, None, None, None, None, None]))"
  by code_simp

lemma twoLevel_requires: "getRequires twoLevelWorld demoRoot True = Inr [(''b'', ''^2'')]"
  by code_simp

lemma twoLevel_read: "read twoLevelWorld demoRoot = Inr twoLevelManifest"
  by (simp add: twoLevelWorld_def tableWorld_def twoLevelManifest_def)

lemma buildLockfileEntry_unfold:
  assumes "read w d = Inr man" and "getRequires w d b = Inr req"
  shows "buildLockfileEntry (Suc n) w ctx h d b
     = map_option (map_sum id (\<lambda>(c, h'). (length h, c, h')))
         (buildLockfileEntry_loop (buildLockfileEntry n w) w
            (ctx\<lparr>visited := insert d (visited ctx),
                  moduleDirs := (moduleDirs ctx)(d \<mapsto> length h),
                  resolves := (resolves ctx)(length h \<mapsto> [])\<rparr>)
            (h @ [newEntry man req]) d (length h) (objKeys req))"
  using assms by (simp add: Let_def split: option.splits sum.splits)

lemma twoLevel_start:
  "(initialContext demoRoot demoPackages)
      \<lparr>visited := insert demoRoot (visited (initialContext demoRoot demoPackages)),
       moduleDirs := (moduleDirs (initialContext demoRoot demoPackages))(demoRoot \<mapsto> length ([] :: heap)),
       resolves := (resolves (initialContext demoRoot demoPackages))(length ([] :: heap) \<mapsto> [])\<rparr>
     = twoLevelCtx1"
  by (simp add: twoLevelCtx1_def initialContext_def)

lemma twoLevel_link:
  "buildLockfileEntry (Suc 4) twoLevelWorld (initialContext demoRoot demoPackages) [] demoRoot True
     = map_option (map_sum id (\<lambda>(c, h). (0, c, h)))
         (buildLockfileEntry_loop (buildLockfileEntry 4 twoLevelWorld) twoLevelWorld
            twoLevelCtx1 twoLevelHeap1 demoRoot 0 [''b''])"
  unfolding buildLockfileEntry_unfold [OF twoLevel_read twoLevel_requires] twoLevel_start
  by (simp only: twoLevelHeap1_def objKeys_def list.map fst_conv append_Nil list.size)

text \<open>The step of the loop for a requirement whose directory is not visited and whose
  name the target map binds: the edge to the bound entry is recorded and nothing else
  happens; the recursive call is not made.\<close>

lemma buildLockfileEntry_loop_bound:
  assumes "resolvePackageLocation w d depName = Inr resolvedDir"
    and "resolvedDir \<notin> visited ctx"
    and "(case getModulesDir resolvedDir of None \<Rightarrow> (RootDeps, h)
            | Some modulesDir \<Rightarrow> getDependencyTarget ctx h modulesDir) = (depsObject, h1)"
    and "getProp (targetDeps ctx h1 depsObject) depName = Some depEntry"
  shows "buildLockfileEntry_loop rec w ctx h d entry (depName # rest) =
           buildLockfileEntry_loop rec w (entryResolvesSet ctx entry depName depEntry) h1 d entry rest"
  using assms by simp


text \<open>
  Claim C10. The claim is that the builder never overwrites a name binding of a target
  map. It tests \<open>depName in depsObject\<close> before the recursive build and assigns after it.
  In the two-level workspace the root's loop starts from the state in which the root
  entry is registered, finds \<open>b\<close> unbound in \<open>rootDeps\<close> and builds
  \<open>/w/packages/node_modules/b\<close> (entry 1); that build returns with \<open>b\<close> bound in \<open>rootDeps\<close>
  to the entry of \<open>/w/node_modules/b\<close> (entry 3); the loop then assigns \<open>rootDeps[b]\<close> and
  the binding to entry 3 is gone. At the end of the run, which is this loop, entry 3 is
  registered for its directory and sits in no dependencies map.
\<close>

theorem buildLockfileEntry_twoLevel_overwrite:
  "map_option (map_sum id (\<lambda>(e, c, h). (e, rootDeps c)))
     (buildLockfileEntry 4 twoLevelWorld twoLevelCtx1 twoLevelHeap1
        [''w'', ''packages'', ''node_modules'', ''b''] False)
     = Some (Inr (1, [(''b'', 3), (''x'', 2)]))
   \<and> map_option (map_sum id (\<lambda>(c, h). rootDeps c))
     (buildLockfileEntry_loop (buildLockfileEntry 4 twoLevelWorld) twoLevelWorld
        twoLevelCtx1 twoLevelHeap1 demoRoot 0 [''b''])
     = Some (Inr [(''b'', 1), (''x'', 2)])
   \<and> map_option (map_sum id (\<lambda>(e, c, h).
        (rootDeps c, map dependencies h, moduleDirs c [''w'', ''node_modules'', ''b''])))
     (buildLockfileEntry 5 twoLevelWorld (initialContext demoRoot demoPackages) [] demoRoot True)
     = Some (Inr ([(''b'', 1), (''x'', 2)], [Some [], Some [], Some [], Some []], Some 3))
   \<and> buildLockfileEntry 5 twoLevelWorld (initialContext demoRoot demoPackages) [] demoRoot True
     = map_option (map_sum id (\<lambda>(c, h). (0, c, h)))
         (buildLockfileEntry_loop (buildLockfileEntry 4 twoLevelWorld) twoLevelWorld
            twoLevelCtx1 twoLevelHeap1 demoRoot 0 [''b''])"
proof (intro conjI)
  show "map_option (map_sum id (\<lambda>(e, c, h). (e, rootDeps c)))
     (buildLockfileEntry 4 twoLevelWorld twoLevelCtx1 twoLevelHeap1
        [''w'', ''packages'', ''node_modules'', ''b''] False)
     = Some (Inr (1, [(''b'', 3), (''x'', 2)]))"
    by code_simp
  show "map_option (map_sum id (\<lambda>(c, h). rootDeps c))
     (buildLockfileEntry_loop (buildLockfileEntry 4 twoLevelWorld) twoLevelWorld
        twoLevelCtx1 twoLevelHeap1 demoRoot 0 [''b''])
     = Some (Inr [(''b'', 1), (''x'', 2)])"
    by code_simp
  show "map_option (map_sum id (\<lambda>(e, c, h).
        (rootDeps c, map dependencies h, moduleDirs c [''w'', ''node_modules'', ''b''])))
     (buildLockfileEntry 5 twoLevelWorld (initialContext demoRoot demoPackages) [] demoRoot True)
     = Some (Inr ([(''b'', 1), (''x'', 2)], [Some [], Some [], Some [], Some []], Some 3))"
    by code_simp
  have five: "(5::nat) = Suc 4" by simp
  show "buildLockfileEntry 5 twoLevelWorld (initialContext demoRoot demoPackages) [] demoRoot True
     = map_option (map_sum id (\<lambda>(c, h). (0, c, h)))
         (buildLockfileEntry_loop (buildLockfileEntry 4 twoLevelWorld) twoLevelWorld
            twoLevelCtx1 twoLevelHeap1 demoRoot 0 [''b''])"
    unfolding five by (rule twoLevel_link)
qed

section \<open>Logical reachability\<close>

lemma ownerWf_chain:
  assumes "ownerWf h"
  shows "\<exists>cs. ownerChain h cur cs"
proof (cases cur)
  case None
  then show ?thesis by (auto intro: ownerChain_end)
next
  case (Some a)
  from assms have wf: "wf {(own, a). owner (deref h a) = Some own}"
    by (simp add: ownerWf_def)
  have "\<exists>cs. ownerChain h (Some a) cs"
    using wf
  proof (induction a rule: wf_induct_rule)
    case (less a)
    show ?case
    proof (cases "owner (deref h a)")
      case None
      then have "ownerChain h (owner (deref h a)) []" by (simp add: ownerChain_end)
      then show ?thesis by (blast intro: ownerChain_step)
    next
      case (Some own)
      then have "(own, a) \<in> {(own, a). owner (deref h a) = Some own}" by simp
      from less.IH [OF this] obtain cs where "ownerChain h (Some own) cs" ..
      then have "ownerChain h (owner (deref h a)) cs" by (simp add: Some)
      then show ?thesis by (blast intro: ownerChain_step)
    qed
  qed
  then show ?thesis by (simp add: Some)
qed

lemma resolveDependencyEntry_total:
  "ownerWf h \<Longrightarrow> resolveDependencyEntry h a nm k \<noteq> None"
  using ownerWf_chain [of h "Some a"] resolveDependencyEntry_loop_total [of h "Some a" _ k]
  by (auto simp: resolveDependencyEntry_def)

lemma resolveDependencyEntry_name:
  "resolveDependencyEntry h a nm k = resolveDependencyEntry h a nm' k"
  by (simp add: resolveDependencyEntry_def)

lemma targetsOf_Cons:
  "resolveDependencyEntry h e nm k = Some (Inr r) \<Longrightarrow> targetsOf h e (k # ks) = r # targetsOf h e ks"
  using resolveDependencyEntry_name [of h e nm k "[]"]
  by (simp add: targetsOf_def map_filter_simps)

lemma walkDeps_loop_post:
  assumes rec: "\<And>nm e u walked u' walked'.
      distinct walked \<Longrightarrow> rec nm e u (Some walked) = Some (Inr (u', walked')) \<Longrightarrow>
      walkPost h walker {e} [] u walked u' walked' \<and> e \<in> set walked'"
  shows "distinct walked \<Longrightarrow>
         walkDeps_loop rec h nm e walker ks u walked = Some (Inr (u', walked')) \<Longrightarrow>
         walkPost h walker (set (targetsOf h e ks)) (targetsOf h e ks) u walked u' walked'
         \<and> set (targetsOf h e ks) \<subseteq> set walked'"
proof (induction ks arbitrary: u walked)
  case Nil
  then show ?case by (simp add: walkPost_def targetsOf_def map_filter_simps)
next
  case (Cons k rest)
  from Cons.prems(2) obtain r u1 walked1 where
    res: "resolveDependencyEntry h e nm k = Some (Inr r)"
    and rc: "rec k r (walker r u) (Some walked) = Some (Inr (u1, walked1))"
    and l: "walkDeps_loop rec h nm e walker rest u1 walked1 = Some (Inr (u', walked'))"
    by (auto split: option.splits sum.splits)
  have ts: "targetsOf h e (k # rest) = r # targetsOf h e rest"
    using res by (rule targetsOf_Cons)
  from rec [OF Cons.prems(1) rc] obtain n1 s1 where
    p1: "walked1 = walked @ n1" "distinct walked1" "u1 = fold walker s1 (walker r u)"
        "mset s1 = (\<Sum>a\<leftarrow>n1. mset (edgeTargets h a))"
        "set n1 \<subseteq> (logicalEdges h)\<^sup>* `` {r}"
        "\<forall>a \<in> set n1. set (edgeTargets h a) \<subseteq> set walked1"
    and r1: "r \<in> set walked1"
    by (auto simp: walkPost_def)
  from Cons.IH [OF p1(2) l] obtain n2 s2 where
    p2: "walked' = walked1 @ n2" "distinct walked'" "u' = fold walker s2 u1"
        "mset s2 = mset (targetsOf h e rest) + (\<Sum>a\<leftarrow>n2. mset (edgeTargets h a))"
        "set n2 \<subseteq> (logicalEdges h)\<^sup>* `` set (targetsOf h e rest)"
        "\<forall>a \<in> set n2. set (edgeTargets h a) \<subseteq> set walked'"
    and r2: "set (targetsOf h e rest) \<subseteq> set walked'"
    by (auto simp: walkPost_def)
  have a1: "walked' = walked @ (n1 @ n2)" using p1(1) p2(1) by simp
  have a3: "u' = fold walker (r # s1 @ s2) u" using p1(3) p2(3) by simp
  have a4: "mset (r # s1 @ s2) = mset (targetsOf h e (k # rest))
              + (\<Sum>a\<leftarrow>n1 @ n2. mset (edgeTargets h a))"
    using p1(4) p2(4) by (simp add: ts)
  have a5: "set (n1 @ n2) \<subseteq> (logicalEdges h)\<^sup>* `` set (targetsOf h e (k # rest))"
    using p1(5) p2(5) by (auto simp: ts)
  have a6: "\<forall>a \<in> set (n1 @ n2). set (edgeTargets h a) \<subseteq> set walked'"
    using p1(6) p2(6) p2(1) by auto
  have a7: "set (targetsOf h e (k # rest)) \<subseteq> set walked'"
    using r1 r2 p2(1) by (auto simp: ts)
  show ?case
    unfolding walkPost_def using a1 p2(2) a3 a4 a5 a6 a7 by blast
qed

lemma walkDeps_post:
  "distinct walked \<Longrightarrow>
   walkDeps fuel h walker nm e u (Some walked) = Some (Inr (u', walked')) \<Longrightarrow>
   walkPost h walker {e} [] u walked u' walked' \<and> e \<in> set walked'"
proof (induction fuel arbitrary: nm e u walked u' walked')
  case 0
  then show ?case by simp
next
  case (Suc fuel)
  show ?case
  proof (cases "e \<in> set walked")
    case True
    with Suc.prems have "u' = u" "walked' = walked" by simp_all
    with True Suc.prems(1) show ?thesis
      by (auto simp: walkPost_def intro!: exI [of _ "[]"])
  next
    case False
    have leaf: ?thesis if "u' = u" "walked' = walked @ [e]" "edgeTargets h e = []"
      using that False Suc.prems(1)
      by (auto simp: walkPost_def intro!: exI [of _ "[e]"] exI [of _ "[]"])
    show ?thesis
    proof (cases "case e of Inherited _ \<Rightarrow> None | EntryRef a \<Rightarrow> requires (deref h a)")
      case None
      with False Suc.prems have "u' = u" "walked' = walked @ [e]"
        by (auto simp: Let_def split: ref.splits)
      moreover have "edgeTargets h e = []"
        using None by (auto simp: edgeTargets_def split: ref.splits)
      ultimately show ?thesis by (rule leaf)
    next
      case (Some req)
      then obtain a where ea: "e = EntryRef a" and rq: "requires (deref h a) = Some req"
        by (auto split: ref.splits)
      let ?ts = "targetsOf h a (objKeys req)"
      have et: "edgeTargets h e = ?ts" by (simp add: edgeTargets_def ea rq)
      from False ea rq Suc.prems(2) have
        l: "walkDeps_loop (walkDeps fuel h walker) h nm a walker (objKeys req) u (walked @ [e])
              = Some (Inr (u', walked'))"
        by (simp add: Let_def)
      have d1: "distinct (walked @ [e])" using False Suc.prems(1) by simp
      have "walkPost h walker (set ?ts) ?ts u (walked @ [e]) u' walked' \<and> set ?ts \<subseteq> set walked'"
      proof (rule walkDeps_loop_post [OF _ d1 l])
        fix nm' e' u0 w0 u1 w1
        assume "distinct w0"
          and "walkDeps fuel h walker nm' e' u0 (Some w0) = Some (Inr (u1, w1))"
        then show "walkPost h walker {e'} [] u0 w0 u1 w1 \<and> e' \<in> set w1"
          by (rule Suc.IH)
      qed
      then obtain n sq where
        p: "walked' = (walked @ [e]) @ n" "distinct walked'" "u' = fold walker sq u"
           "mset sq = mset ?ts + (\<Sum>a\<leftarrow>n. mset (edgeTargets h a))"
           "set n \<subseteq> (logicalEdges h)\<^sup>* `` set ?ts"
           "\<forall>a \<in> set n. set (edgeTargets h a) \<subseteq> set walked'"
        and r: "set ?ts \<subseteq> set walked'"
        by (auto simp: walkPost_def)
      have e1: "set ?ts \<subseteq> logicalEdges h `` {e}"
        by (auto simp: logicalEdges_def et)
      have a1: "walked' = walked @ (e # n)" using p(1) by simp
      have a4: "mset sq = mset [] + (\<Sum>a\<leftarrow>e # n. mset (edgeTargets h a))"
        using p(4) by (simp add: et)
      have a5: "set (e # n) \<subseteq> (logicalEdges h)\<^sup>* `` {e}"
      proof
        fix x assume "x \<in> set (e # n)"
        then consider "x = e" | "x \<in> set n" by auto
        then show "x \<in> (logicalEdges h)\<^sup>* `` {e}"
        proof cases
          case 1
          then show ?thesis by simp
        next
          case 2
          with p(5) obtain t where "t \<in> set ?ts" "(t, x) \<in> (logicalEdges h)\<^sup>*" by auto
          with e1 have "(e, t) \<in> logicalEdges h" by auto
          with \<open>(t, x) \<in> (logicalEdges h)\<^sup>*\<close> show ?thesis
            by (auto intro: converse_rtrancl_into_rtrancl)
        qed
      qed
      have a6: "\<forall>a \<in> set (e # n). set (edgeTargets h a) \<subseteq> set walked'"
        using p(6) r by (simp add: et)
      have a7: "e \<in> set walked'" using p(1) by simp
      show ?thesis
        unfolding walkPost_def using a1 p(2) p(3) a4 a5 a6 a7 by blast
    qed
  qed
qed


lemma requires_in_heap: "requires (deref h e) = Some req \<Longrightarrow> e < length h"
  by (auto simp: deref_def noEntry_def split: if_splits)

lemma unwalked_mono:
  "set w1 \<subseteq> set w2 \<Longrightarrow>
   card (EntryRef ` {a. a < length h} - set w2) \<le> card (EntryRef ` {a. a < length h} - set w1)"
  by (intro card_mono) auto

lemma walkDeps_loop_total:
  assumes tot: "\<And>nm e u wk. distinct wk \<Longrightarrow> set w1 \<subseteq> set wk \<Longrightarrow> rec nm e u (Some wk) \<noteq> None"
    and post: "\<And>nm e u wk u' wk'. distinct wk \<Longrightarrow> rec nm e u (Some wk) = Some (Inr (u', wk')) \<Longrightarrow>
                 distinct wk' \<and> set wk \<subseteq> set wk'"
    and res: "\<And>k. resolveDependencyEntry h e nm k \<noteq> None"
  shows "distinct wk \<Longrightarrow> set w1 \<subseteq> set wk \<Longrightarrow>
         walkDeps_loop rec h nm e walker ks u wk \<noteq> None"
proof (induction ks arbitrary: u wk)
  case Nil
  show ?case by simp
next
  case (Cons k rest)
  from res [of k] obtain r where r: "resolveDependencyEntry h e nm k = Some r" by auto
  show ?case
  proof (cases r)
    case (Inl err)
    with r show ?thesis by simp
  next
    case (Inr t)
    from tot [OF Cons.prems, of k t "walker t u"] obtain r2 where
      r2: "rec k t (walker t u) (Some wk) = Some r2" by auto
    show ?thesis
    proof (cases r2)
      case (Inl err)
      with r Inr r2 show ?thesis by simp
    next
      case (Inr res2)
      obtain u1 wk1 where res2: "res2 = (u1, wk1)" by (cases res2)
      from post [OF Cons.prems(1) r2 [unfolded Inr res2]]
      have "distinct wk1" "set wk \<subseteq> set wk1" by simp_all
      with Cons.prems(2) have "walkDeps_loop rec h nm e walker rest u1 wk1 \<noteq> None"
        by (intro Cons.IH) auto
      with r \<open>r = Inr t\<close> r2 Inr res2 show ?thesis by simp
    qed
  qed
qed

lemma walkDeps_total:
  assumes wf: "ownerWf h"
  shows "distinct walked \<Longrightarrow> card (EntryRef ` {a. a < length h} - set walked) < fuel \<Longrightarrow>
         walkDeps fuel h walker nm e u (Some walked) \<noteq> None"
proof (induction fuel arbitrary: nm e u walked)
  case 0
  then show ?case by simp
next
  case (Suc fuel)
  show ?case
  proof (cases "e \<in> set walked")
    case True
    then show ?thesis by simp
  next
    case False
    show ?thesis
    proof (cases "case e of Inherited _ \<Rightarrow> None | EntryRef a \<Rightarrow> requires (deref h a)")
      case None
      with False show ?thesis by (auto simp: Let_def split: ref.splits)
    next
      case (Some req)
      then obtain a where ea: "e = EntryRef a" and rq: "requires (deref h a) = Some req"
        by (auto split: ref.splits)
      from rq have eh: "a < length h" by (rule requires_in_heap)
      let ?w1 = "walked @ [e]"
      let ?H = "EntryRef ` {a. a < length h}"
      have "?H - set ?w1 \<subset> ?H - set walked"
        using eh False ea by auto
      then have "card (?H - set ?w1) < card (?H - set walked)"
        by (intro psubset_card_mono) auto
      with Suc.prems(2) have c1: "card (?H - set ?w1) < fuel" by simp
      have d1: "distinct ?w1" using False Suc.prems(1) by simp
      have "walkDeps_loop (walkDeps fuel h walker) h nm a walker (objKeys req) u ?w1 \<noteq> None"
      proof (rule walkDeps_loop_total [where ?w1.0 = ?w1])
        fix nm' e' u0 wk
        assume "distinct wk" and "set ?w1 \<subseteq> set wk"
        then show "walkDeps fuel h walker nm' e' u0 (Some wk) \<noteq> None"
          using c1 unwalked_mono [of ?w1 wk h] by (intro Suc.IH) auto
      next
        fix nm' e' u0 wk u1 wk1
        assume d: "distinct wk"
          and r: "walkDeps fuel h walker nm' e' u0 (Some wk) = Some (Inr (u1, wk1))"
        from walkDeps_post [OF d r] show "distinct wk1 \<and> set wk \<subseteq> set wk1"
          by (auto simp: walkPost_def)
      next
        fix k show "resolveDependencyEntry h a nm k \<noteq> None"
          using wf by (rule resolveDependencyEntry_total)
      next
        show "distinct ?w1" by (rule d1)
        show "set ?w1 \<subseteq> set ?w1" by simp
      qed
      with False ea rq show ?thesis by (simp add: Let_def)
    qed
  qed
qed

lemma walkDeps_fresh: "walkDeps fuel h walker nm e u None = walkDeps fuel h walker nm e u (Some [])"
  by (cases fuel) simp_all

lemma closed_reachable:
  assumes e: "e \<in> W" and cl: "\<forall>a \<in> W. set (edgeTargets h a) \<subseteq> W"
  shows "reachable h e \<subseteq> W"
proof
  fix x assume "x \<in> reachable h e"
  then have "(e, x) \<in> (logicalEdges h)\<^sup>*" by (simp add: reachable_def)
  then show "x \<in> W"
  proof (induction rule: rtrancl_induct)
    case base
    show ?case by (rule e)
  next
    case (step y z)
    then show ?case using cl by (auto simp: logicalEdges_def)
  qed
qed

lemma walkPost_top:
  assumes "walkPost h walker {e} [] u [] u' walked" and "e \<in> set walked"
  shows "distinct walked \<and> set walked = reachable h e
         \<and> (\<exists>sq. u' = fold walker sq u \<and> mset sq = (\<Sum>a\<leftarrow>walked. mset (edgeTargets h a)))"
proof -
  from assms(1) obtain sq where
    p: "distinct walked" "u' = fold walker sq u"
       "mset sq = (\<Sum>a\<leftarrow>walked. mset (edgeTargets h a))"
       "set walked \<subseteq> (logicalEdges h)\<^sup>* `` {e}"
       "\<forall>a \<in> set walked. set (edgeTargets h a) \<subseteq> set walked"
    by (auto simp: walkPost_def)
  from closed_reachable [OF assms(2) p(5)] p(4)
  have "set walked = reachable h e" by (auto simp: reachable_def)
  with p show ?thesis by blast
qed

lemma set_fold_setAdd: "set (fold setAdd sq sd) = set sd \<union> set sq"
  by (induction sq arbitrary: sd) (auto simp: setAdd_def)

lemma distinct_fold_setAdd: "distinct sd \<Longrightarrow> distinct (fold setAdd sq sd)"
  by (induction sq arbitrary: sd) (auto simp: setAdd_def)

lemma set_sum_list_mset:
  "set_mset (\<Sum>a\<leftarrow>xs. mset (f a)) = (\<Union>a \<in> set xs. set (f a))"
  by (induction xs) auto

lemma reachable_unfold:
  "reachable h e = insert e (\<Union>a \<in> reachable h e. set (edgeTargets h a))"
proof
  show "reachable h e \<subseteq> insert e (\<Union>a \<in> reachable h e. set (edgeTargets h a))"
  proof
    fix x assume "x \<in> reachable h e"
    then have "(e, x) \<in> (logicalEdges h)\<^sup>*" by (simp add: reachable_def)
    then show "x \<in> insert e (\<Union>a \<in> reachable h e. set (edgeTargets h a))"
      by (cases rule: rtranclE) (auto simp: reachable_def logicalEdges_def)
  qed
  show "insert e (\<Union>a \<in> reachable h e. set (edgeTargets h a)) \<subseteq> reachable h e"
    by (auto simp: reachable_def logicalEdges_def intro: rtrancl_into_rtrancl)
qed

lemma walkDeps_top:
  assumes "walkDeps fuel h walker entryName entry u None = Some (Inr (u', walked))"
  shows "distinct walked \<and> set walked = reachable h entry
         \<and> (\<exists>sq. u' = fold walker sq u \<and> mset sq = (\<Sum>a\<leftarrow>walked. mset (edgeTargets h a)))"
proof -
  from assms have "walkDeps fuel h walker entryName entry u (Some []) = Some (Inr (u', walked))"
    by (simp add: walkDeps_fresh)
  from walkDeps_post [OF _ this] have
    p: "walkPost h walker {entry} [] u [] u' walked \<and> entry \<in> set walked" by simp
  show ?thesis
    using p by (intro walkPost_top) simp_all
qed

lemma walkDeps_collect:
  assumes d: "distinct subsetDeps"
    and r: "walkDeps fuel h setAdd entryName entry (setAdd entry subsetDeps) None
              = Some (Inr (subsetDeps', walked))"
  shows "distinct subsetDeps' \<and> set subsetDeps' = set subsetDeps \<union> reachable h entry"
proof -
  from walkDeps_top [OF r] obtain sq where
    w: "set walked = reachable h entry"
    and sq: "subsetDeps' = fold setAdd sq (setAdd entry subsetDeps)"
            "mset sq = (\<Sum>a\<leftarrow>walked. mset (edgeTargets h a))"
    by blast
  have d0: "distinct (setAdd entry subsetDeps)" using d by (simp add: setAdd_def)
  have "set sq = set_mset (mset sq)" by simp
  also have "\<dots> = (\<Union>a \<in> reachable h entry. set (edgeTargets h a))"
    unfolding sq(2) by (simp add: set_sum_list_mset w)
  finally have s: "set sq = (\<Union>a \<in> reachable h entry. set (edgeTargets h a))" .
  have "set subsetDeps' = set subsetDeps \<union> insert entry (set sq)"
    unfolding sq(1) by (auto simp: set_fold_setAdd setAdd_def)
  also have "insert entry (set sq) = reachable h entry"
    unfolding s using reachable_unfold [of h entry] by simp
  finally have "set subsetDeps' = set subsetDeps \<union> reachable h entry" .
  moreover have "distinct subsetDeps'"
    unfolding sq(1) using d0 by (rule distinct_fold_setAdd)
  ultimately show ?thesis by simp
qed

text \<open>
  Claim C5. On every heap whose owner references form no cycle, cyclic requires graphs
  included, a top-level call of \<open>walkDeps\<close> returns once the fuel exceeds the number of
  entries. When it returns without the resolution error, the entries it expanded are
  distinct (\<open>walked\<close> is appended to at each expansion, so each entry's requires edges
  were expanded at most once), they are exactly the entries reachable from the start
  entry, and the visitor was called once per requires edge of each of them. With the
  visitor of \<open>walkNonSubsetDeps\<close>, which adds to \<open>subsetDeps\<close>, the resulting set has no
  entry twice and holds, besides what it held before, exactly the reachable entries.
\<close>

theorem walkDeps_cycle_tolerant:
  assumes wf: "ownerWf h" and fuel: "length h < fuel"
  shows "(\<exists>r. walkDeps fuel h walker entryName entry u None = Some r)
    \<and> (\<forall>u' walked. walkDeps fuel h walker entryName entry u None = Some (Inr (u', walked)) \<longrightarrow>
          distinct walked \<and> set walked = reachable h entry
          \<and> (\<exists>sq. u' = fold walker sq u \<and> mset sq = (\<Sum>a\<leftarrow>walked. mset (edgeTargets h a))))
    \<and> (\<forall>subsetDeps subsetDeps' walked. distinct subsetDeps \<longrightarrow>
          walkDeps fuel h setAdd entryName entry (setAdd entry subsetDeps) None
            = Some (Inr (subsetDeps', walked)) \<longrightarrow>
          distinct subsetDeps' \<and> set subsetDeps' = set subsetDeps \<union> reachable h entry)"
proof (intro conjI allI impI)
  have "card (EntryRef ` {a. a < length h} - set []) < fuel"
    using fuel by (simp add: card_image inj_on_def)
  with walkDeps_total [OF wf, of "[]" fuel walker entryName entry u]
  show "\<exists>r. walkDeps fuel h walker entryName entry u None = Some r"
    by (auto simp: walkDeps_fresh)
next
  fix u' walked
  assume r: "walkDeps fuel h walker entryName entry u None = Some (Inr (u', walked))"
  from walkDeps_top [OF r] show "distinct walked" by simp
  from walkDeps_top [OF r] show "set walked = reachable h entry" by simp
  from walkDeps_top [OF r]
  show "\<exists>sq. u' = fold walker sq u \<and> mset sq = (\<Sum>a\<leftarrow>walked. mset (edgeTargets h a))"
    by simp
next
  fix subsetDeps subsetDeps' walked
  assume d: "distinct subsetDeps"
    and r: "walkDeps fuel h setAdd entryName entry (setAdd entry subsetDeps) None
              = Some (Inr (subsetDeps', walked))"
  from walkDeps_collect [OF d r] show "distinct subsetDeps'" by simp
  from walkDeps_collect [OF d r]
  show "set subsetDeps' = set subsetDeps \<union> reachable h entry" by simp
qed

lemma cycleHeap_ownerWf: "ownerWf cycleHeap"
proof -
  have lt: "own < a" if "owner (deref cycleHeap a) = Some own" for a own
  proof (cases "a < 3")
    case True
    then have "a = 0 \<or> a = 1 \<or> a = 2" by auto
    with that show ?thesis
      by (auto simp: deref_def cycleHeap_def noEntry_def)
  next
    case False
    with that show ?thesis by (simp add: deref_def cycleHeap_def noEntry_def)
  qed
  have "{(own, a). owner (deref cycleHeap a) = Some own} \<subseteq> {(x, y). x < y}"
    using lt by auto
  moreover have "wf {(x, y :: nat). x < y}"
    using wf_less by (simp add: less_than_def [symmetric])
  ultimately show ?thesis
    unfolding ownerWf_def by (rule wf_subset [rotated])
qed

lemma cycleHeap_walk:
  "walkDeps 4 cycleHeap setAdd ''a'' (EntryRef 1) (setAdd (EntryRef 1) []) None
     = Some (Inr ([EntryRef 1, EntryRef 2], [EntryRef 1, EntryRef 2]))"
  by code_simp

text \<open>On the mutual requirement of \<open>a\<close> and \<open>b\<close> the walk from \<open>a\<close> returns, and both
  entries are in the set once.\<close>

theorem walkDeps_cycle_tolerant_witness:
  "ownerWf cycleHeap \<and> length cycleHeap < 4
   \<and> walkDeps 4 cycleHeap setAdd ''a'' (EntryRef 1) (setAdd (EntryRef 1) []) None
         = Some (Inr ([EntryRef 1, EntryRef 2], [EntryRef 1, EntryRef 2]))
   \<and> reachable cycleHeap (EntryRef 1) = {EntryRef 1, EntryRef 2}"
proof -
  have len: "length cycleHeap < 4" by (simp add: cycleHeap_def)
  from walkDeps_cycle_tolerant [OF cycleHeap_ownerWf len,
         of setAdd "''a''" "EntryRef 1" "setAdd (EntryRef 1) []"]
  have "\<forall>subsetDeps subsetDeps' walked. distinct subsetDeps \<longrightarrow>
          walkDeps 4 cycleHeap setAdd ''a'' (EntryRef 1) (setAdd (EntryRef 1) subsetDeps) None
            = Some (Inr (subsetDeps', walked)) \<longrightarrow>
          distinct subsetDeps' \<and> set subsetDeps' = set subsetDeps \<union> reachable cycleHeap (EntryRef 1)"
    by blast
  then have "set [EntryRef 1, EntryRef 2] = set [] \<union> reachable cycleHeap (EntryRef 1)"
    using cycleHeap_walk by (metis distinct.simps(1))
  then show ?thesis
    using cycleHeap_ownerWf len cycleHeap_walk by auto
qed

section \<open>Classification passes on a context with a root\<close>

lemma walkNonSubsetDeps_loop_collect:
  "distinct sd \<Longrightarrow> walkNonSubsetDeps_loop fuel h rd names sd = Some (Inr sd') \<Longrightarrow>
   distinct sd'
   \<and> set sd' = set sd \<union> (\<Union>n \<in> set names. case getProp rd n of None \<Rightarrow> {}
                                                     | Some e \<Rightarrow> reachable h e)"
proof (induction names arbitrary: sd)
  case Nil
  then show ?case by simp
next
  case (Cons n names)
  show ?case
  proof (cases "getProp rd n")
    case None
    with Cons.prems have "walkNonSubsetDeps_loop fuel h rd names sd = Some (Inr sd')" by simp
    from Cons.IH [OF Cons.prems(1) this] show ?thesis
      by (simp add: None)
  next
    case (Some e)
    with Cons.prems(2) obtain sd1 w1 where
      r: "walkDeps fuel h setAdd n e (setAdd e sd) None = Some (Inr (sd1, w1))"
      and l: "walkNonSubsetDeps_loop fuel h rd names sd1 = Some (Inr sd')"
      by (auto split: option.splits sum.splits)
    from walkDeps_collect [OF Cons.prems(1) r]
    have d1: "distinct sd1" and s1: "set sd1 = set sd \<union> reachable h e" by simp_all
    from Cons.IH [OF d1 l] show ?thesis
      by (auto simp: Some s1)
  qed
qed

lemma subsetReach_collect:
  "subsetReach h rd names =
     {a. EntryRef a \<in> (\<Union>n \<in> set names. case getProp rd n of None \<Rightarrow> {}
                                               | Some e \<Rightarrow> reachable h e)}"
  by (auto simp: subsetReach_def split: option.splits)

lemma marked_refl: "marked S upd h [] h"
  by (simp add: marked_def)

lemma marked_children:
  assumes "flagOnly upd" and "marked S upd h vs h'"
  shows "childrenOf h' a = childrenOf h a"
  using assms by (auto simp: marked_def flagOnly_def childrenOf_def)

lemma marked_step:
  assumes fo: "flagOnly upd"
    and m1: "marked S upd h (childrenOf h v) h1"
    and h2: "h2 = (if v \<notin> S then h1[v := upd (deref h1 v)] else h1)"
    and m3: "marked S upd h2 rest h'"
  shows "marked S upd h (v # rest) h'"
proof -
  have len1: "length h1 = length h" using m1 by (simp add: marked_def)
  have len2: "length h2 = length h" using h2 len1 by simp
  have d1: "\<And>a. deref h1 a =
      (if a < length h \<and> inTree h (childrenOf h v) a \<and> a \<notin> S then upd (deref h a) else deref h a)"
    using m1 by (simp add: marked_def)
  have d2: "\<And>a. deref h2 a = (if a = v \<and> v < length h \<and> v \<notin> S then upd (deref h1 a) else deref h1 a)"
    using h2 len1 by (auto simp: deref_def)
  have c2: "\<And>a. childrenOf h2 a = childrenOf h a"
    using fo by (auto simp: childrenOf_def d2 d1 flagOnly_def)
  have t2: "\<And>a. inTree h2 rest a \<longleftrightarrow> inTree h rest a"
    by (rule inTree_cong) (rule c2)
  have d3: "\<And>a. deref h' a =
      (if a < length h \<and> inTree h rest a \<and> a \<notin> S then upd (deref h2 a) else deref h2 a)"
    using m3 by (simp add: marked_def len2 t2)
  have idem: "\<And>e. upd (upd e) = upd e" using fo by (simp add: flagOnly_def)
  show ?thesis
    unfolding marked_def
  proof (intro conjI allI)
    show "length h' = length h" using m3 len2 by (simp add: marked_def)
    fix a
    show "deref h' a =
      (if a < length h \<and> inTree h (v # rest) a \<and> a \<notin> S then upd (deref h a) else deref h a)"
      by (auto simp: d3 d2 d1 inTree_Cons idem)
  qed
qed

lemma walkEntries_loop_marked:
  assumes fo: "flagOnly upd" and fv: "flagVisitor upd v"
    and rec: "\<And>d h u h' u'. rec d (h, u) = Some (h', u') \<Longrightarrow>
                 marked S upd h (case d of None \<Rightarrow> [] | Some ds \<Rightarrow> objValues ds) h'"
  shows "walkEntries_loop rec (\<lambda>e s. if e \<notin> S then v e s else s) vs (h, u) = Some (h', u') \<Longrightarrow>
         marked S upd h vs h'"
proof (induction vs arbitrary: h u)
  case Nil
  then show ?case by (simp add: marked_refl)
next
  case (Cons x rest)
  let ?f = "\<lambda>e s. if e \<notin> S then v e s else s"
  from Cons.prems obtain h1 u1 where
    r: "rec (dependencies (deref h x)) (h, u) = Some (h1, u1)"
    and l: "walkEntries_loop rec ?f rest (?f x (h1, u1)) = Some (h', u')"
    by (auto split: option.splits)
  from rec [OF r] have m1: "marked S upd h (childrenOf h x) h1"
    by (simp add: childrenOf_def)
  obtain h2 u2 where s2: "?f x (h1, u1) = (h2, u2)" by (cases "?f x (h1, u1)")
  have h2: "h2 = (if x \<notin> S then h1[x := upd (deref h1 x)] else h1)"
    using s2 fv by (auto simp: flagVisitor_def split: if_splits dest: arg_cong [where f = fst])
  from l s2 have "walkEntries_loop rec ?f rest (h2, u2) = Some (h', u')" by simp
  from Cons.IH [OF this] have m3: "marked S upd h2 rest h'" .
  from fo m1 h2 m3 show ?case by (rule marked_step)
qed

lemma walkEntries_marked:
  assumes fo: "flagOnly upd" and fv: "flagVisitor upd v"
  shows "walkEntries fuel (\<lambda>e s. if e \<notin> S then v e s else s) deps (h, u) = Some (h', u') \<Longrightarrow>
         marked S upd h (case deps of None \<Rightarrow> [] | Some ds \<Rightarrow> objValues ds) h'"
proof (induction fuel arbitrary: deps h u h' u')
  case 0
  then show ?case by simp
next
  case (Suc fuel)
  show ?case
  proof (cases deps)
    case None
    with Suc.prems show ?thesis by (simp add: marked_refl)
  next
    case (Some ds)
    with Suc.prems have
      l: "walkEntries_loop (walkEntries fuel (\<lambda>e s. if e \<notin> S then v e s else s))
            (\<lambda>e s. if e \<notin> S then v e s else s) (objValues ds) (h, u) = Some (h', u')"
      by simp
    have "marked S upd h (objValues ds) h'"
    proof (rule walkEntries_loop_marked [OF fo fv _ l])
      fix d h0 u0 h1 u1
      assume "walkEntries fuel (\<lambda>e s. if e \<notin> S then v e s else s) d (h0, u0) = Some (h1, u1)"
      then show "marked S upd h0 (case d of None \<Rightarrow> [] | Some ds \<Rightarrow> objValues ds) h1"
        by (rule Suc.IH)
    qed
    then show ?thesis by (simp add: Some)
  qed
qed

text \<open>What \<open>walkNonSubsetDeps\<close> does once the context has a root: the visitor runs on
  exactly the entries of the tree below the root's dependencies that are not logically
  reachable from the given names.\<close>

lemma walkNonSubsetDeps_marked:
  assumes fo: "flagOnly upd" and fv: "flagVisitor upd v"
    and r: "root ctx = Some r" and rd: "dependencies (deref h r) = Some rd"
    and run: "walkNonSubsetDeps fuel ctx h names v u = Some (Inr (h', u'))"
  shows "marked (subsetReach h rd names) upd h (objValues rd) h'"
proof -
  from run r rd obtain sd where
    l: "walkNonSubsetDeps_loop fuel h rd names [] = Some (Inr sd)"
    and w: "walkEntries fuel (\<lambda>e s. if EntryRef e \<notin> set sd then v e s else s) (Some rd) (h, u)
              = Some (h', u')"
    by (auto simp: walkNonSubsetDeps_def split: option.splits sum.splits)
  from walkNonSubsetDeps_loop_collect [OF _ l]
  have sd: "subsetReach h rd names = {a. EntryRef a \<in> set sd}"
    by (simp add: subsetReach_collect)
  from w have "walkEntries fuel (\<lambda>e s. if e \<notin> {a. EntryRef a \<in> set sd} then v e s else s)
                 (Some rd) (h, u) = Some (h', u')"
    by simp
  from walkEntries_marked [OF fo fv this] show ?thesis by (simp add: sd)
qed

lemma resolveDependencyEntry_loop_sameStructure_Some:
  assumes run: "resolveDependencyEntry_loop h cur n = Some y"
  shows "\<forall>h1. sameStructure h h1 \<longrightarrow> resolveDependencyEntry_loop h1 cur n = Some y"
proof (rule resolveDependencyEntry_loop.raw_induct
    [where P = "\<lambda>h cur n y. \<forall>h1. sameStructure h h1 \<longrightarrow>
                   resolveDependencyEntry_loop h1 cur n = Some y", OF _ run])
  fix loop :: "heap \<Rightarrow> addr option \<Rightarrow> pkgname \<Rightarrow> (error + ref) option"
  fix h cur n y
  assume IH: "\<And>h cur n y. loop h cur n = Some y \<Longrightarrow>
                \<forall>h1. sameStructure h h1 \<longrightarrow> resolveDependencyEntry_loop h1 cur n = Some y"
    and body: "(case cur of None \<Rightarrow> Some (Inl InternalError)
       | Some c \<Rightarrow>
           (case resolveDependencyEntryIfExists (deref h c) n of
              None \<Rightarrow> loop h (owner (deref h c)) n
            | Some res \<Rightarrow> Some (Inr res))) = Some y"
  show "\<forall>h1. sameStructure h h1 \<longrightarrow> resolveDependencyEntry_loop h1 cur n = Some y"
  proof (intro allI impI)
    fix h1 assume ss: "sameStructure h h1"
    then have dep: "\<And>a. dependencies (deref h1 a) = dependencies (deref h a)"
      and own: "\<And>a. owner (deref h1 a) = owner (deref h a)"
      by (simp_all add: sameStructure_def)
    have ex: "\<And>a. resolveDependencyEntryIfExists (deref h1 a) n
                  = resolveDependencyEntryIfExists (deref h a) n"
      by (simp add: resolveDependencyEntryIfExists_def dep)
    show "resolveDependencyEntry_loop h1 cur n = Some y"
    proof (cases cur)
      case None
      with body show ?thesis
        by (subst resolveDependencyEntry_loop.simps) simp
    next
      case (Some c)
      show ?thesis
      proof (cases "resolveDependencyEntryIfExists (deref h c) n")
        case None
        with body Some have "loop h (owner (deref h c)) n = Some y" by simp
        from IH [OF this] ss
        have "resolveDependencyEntry_loop h1 (owner (deref h c)) n = Some y" by blast
        then show ?thesis
          by (subst resolveDependencyEntry_loop.simps) (simp add: Some ex None own)
      next
        case (Some res)
        with body \<open>cur = Some c\<close> show ?thesis
          by (subst resolveDependencyEntry_loop.simps) (simp add: ex)
      qed
    qed
  qed
qed

lemma sameStructure_sym: "sameStructure h h1 \<Longrightarrow> sameStructure h1 h"
  by (simp add: sameStructure_def)

lemma resolveDependencyEntry_loop_sameStructure:
  assumes "sameStructure h h1"
  shows "resolveDependencyEntry_loop h1 cur n = resolveDependencyEntry_loop h cur n"
proof (cases "resolveDependencyEntry_loop h cur n")
  case (Some y)
  from resolveDependencyEntry_loop_sameStructure_Some [OF Some] assms
  have "resolveDependencyEntry_loop h1 cur n = Some y" by blast
  with Some show ?thesis by simp
next
  case None
  show ?thesis
  proof (cases "resolveDependencyEntry_loop h1 cur n")
    case None
    with \<open>resolveDependencyEntry_loop h cur n = None\<close> show ?thesis by simp
  next
    case (Some y)
    from resolveDependencyEntry_loop_sameStructure_Some [OF Some] sameStructure_sym [OF assms]
    have "resolveDependencyEntry_loop h cur n = Some y" by blast
    with None show ?thesis by simp
  qed
qed

lemma targetsOf_sameStructure:
  assumes "sameStructure h h1"
  shows "targetsOf h1 a ks = targetsOf h a ks"
  by (simp add: targetsOf_def resolveDependencyEntry_def
        resolveDependencyEntry_loop_sameStructure [OF assms])

lemma edgeTargets_sameStructure:
  assumes "sameStructure h h1"
  shows "edgeTargets h1 a = edgeTargets h a"
proof -
  have "requires (deref h1 x) = requires (deref h x)" for x
    using assms by (simp add: sameStructure_def)
  then show ?thesis
    by (simp add: edgeTargets_def targetsOf_sameStructure [OF assms]
             split: option.splits ref.splits)
qed

lemma reachable_sameStructure:
  assumes "sameStructure h h1"
  shows "reachable h1 e = reachable h e"
  by (simp add: reachable_def logicalEdges_def edgeTargets_sameStructure [OF assms])

lemma subsetReach_sameStructure:
  assumes "sameStructure h h1"
  shows "subsetReach h1 rd names = subsetReach h rd names"
  by (simp add: subsetReach_def reachable_sameStructure [OF assms])

lemma marked_sameStructure:
  assumes "flagOnly upd" and "marked S upd h vs h'"
  shows "sameStructure h h'"
  using assms by (auto simp: marked_def flagOnly_def sameStructure_def)

lemma inTree_sameStructure:
  assumes "sameStructure h h1"
  shows "inTree h1 vs a \<longleftrightarrow> inTree h vs a"
proof (rule inTree_cong)
  fix x show "childrenOf h1 x = childrenOf h x"
    using assms by (simp add: childrenOf_def sameStructure_def)
qed

lemma flagOnly_dev: "flagOnly (\<lambda>e. e\<lparr>dev := Some True\<rparr>)"
  by (simp add: flagOnly_def)

lemma flagOnly_optional: "flagOnly (\<lambda>e. e\<lparr>optional := Some True\<rparr>)"
  by (simp add: flagOnly_def)

lemma flagVisitor_markDev: "flagVisitor (\<lambda>e. e\<lparr>dev := Some True\<rparr>) markDev"
  by (simp add: flagVisitor_def markDev_def)

lemma flagVisitor_markOptional: "flagVisitor (\<lambda>e. e\<lparr>optional := Some True\<rparr>) markOptional"
  by (simp add: flagVisitor_def markOptional_def)

lemma outcome_fst:
  "map_option (map_sum id fst) r = Some (Inr x) \<Longrightarrow> \<exists>u. r = Some (Inr (x, u))"
  by (cases r) (auto simp: map_sum_def split: sum.splits)

text \<open>
  The two passes on a context that has a root, when neither throws: an entry of the tree
  below the root's dependencies gets \<open>dev\<close> exactly when it is not logically reachable
  from the names of dependencies, optional and peer dependencies, and \<open>optional\<close> exactly
  when it is not reachable from the names of dependencies, development and peer
  dependencies; an entry outside both reachable sets ends with both flags; nothing else
  in the heap changes.
\<close>

lemma classification_passes:
  assumes r: "root ctx = Some r" and rd: "dependencies (deref h r) = Some rd"
    and man: "read w (startDir ctx) = Inr man"
    and p1: "markDevDeps fuel w ctx h = Some (Inr h1)"
    and p2: "markOptionalDeps fuel w ctx h1 = Some (Inr h2)"
  defines "nonDev \<equiv> objKeys (objSpread (objSpread (objSpread [] (m_dependencies man))
                       (m_optionalDependencies man)) (m_peerDependencies man))"
    and "nonOptional \<equiv> objKeys (objSpread (objSpread (objSpread [] (m_dependencies man))
                       (m_devDependencies man)) (m_peerDependencies man))"
  shows "deref h2 a =
    (if a < length h \<and> inTree h (objValues rd) a
     then (deref h a)
            \<lparr>dev := (if a \<in> subsetReach h rd nonDev then dev (deref h a) else Some True),
             optional := (if a \<in> subsetReach h rd nonOptional then optional (deref h a)
                          else Some True)\<rparr>
     else deref h a)"
proof -
  from p1 man have
    "map_option (map_sum id fst) (walkNonSubsetDeps fuel ctx h nonDev markDev ()) = Some (Inr h1)"
    by (simp add: markDevDeps_def Let_def nonDev_def)
  from outcome_fst [OF this] obtain u1 where
    w1: "walkNonSubsetDeps fuel ctx h nonDev markDev () = Some (Inr (h1, u1))" ..
  from walkNonSubsetDeps_marked [OF flagOnly_dev flagVisitor_markDev r rd w1]
  have m1: "marked (subsetReach h rd nonDev) (\<lambda>e. e\<lparr>dev := Some True\<rparr>) h (objValues rd) h1" .
  from marked_sameStructure [OF flagOnly_dev m1] have ss: "sameStructure h h1" .
  then have rd1: "dependencies (deref h1 r) = Some rd"
    using rd by (simp add: sameStructure_def)
  from p2 man have
    "map_option (map_sum id fst) (walkNonSubsetDeps fuel ctx h1 nonOptional markOptional ())
       = Some (Inr h2)"
    by (simp add: markOptionalDeps_def Let_def nonOptional_def)
  from outcome_fst [OF this] obtain u2 where
    w2: "walkNonSubsetDeps fuel ctx h1 nonOptional markOptional () = Some (Inr (h2, u2))" ..
  from walkNonSubsetDeps_marked [OF flagOnly_optional flagVisitor_markOptional r rd1 w2]
  have m2: "marked (subsetReach h rd nonOptional) (\<lambda>e. e\<lparr>optional := Some True\<rparr>)
              h1 (objValues rd) h2"
    by (simp add: subsetReach_sameStructure [OF ss])
  have len: "length h1 = length h" using m1 by (simp add: marked_def)
  have d1: "deref h1 a =
      (if a < length h \<and> inTree h (objValues rd) a \<and> a \<notin> subsetReach h rd nonDev
       then (deref h a)\<lparr>dev := Some True\<rparr> else deref h a)"
    using m1 by (simp add: marked_def)
  have d2: "deref h2 a =
      (if a < length h \<and> inTree h (objValues rd) a \<and> a \<notin> subsetReach h rd nonOptional
       then (deref h1 a)\<lparr>optional := Some True\<rparr> else deref h1 a)"
    using m2 by (simp add: marked_def len inTree_sameStructure [OF ss])
  show ?thesis
    unfolding d2 d1 by auto
qed

end
